theory Spec2Isabelle
  imports Main "HOL-Library.Monad_Syntax"
begin

section \<open>The ignore-rule matcher of \<^verbatim>\<open>src/main.cpp\<close>\<close>

text \<open>
  A shallow embedding of the pattern compiler (\<^verbatim>\<open>LoadGitignoreSpec\<close>) and of the matcher
  (\<^verbatim>\<open>IsIgnored\<close>, \<^verbatim>\<open>GitWildMatch\<close>, \<^verbatim>\<open>WildMatchPath\<close>, \<^verbatim>\<open>TokensMatch\<close>,
  \<^verbatim>\<open>SegmentMatch\<close>) with the string helpers they call.

  A \<^verbatim>\<open>std::string\<close> is a \<open>string\<close>, a \<^verbatim>\<open>std::vector\<close> a list, a \<^verbatim>\<open>size_t\<close> index a \<open>nat\<close>
  (the indices of the source never exceed the size of a string or vector plus one, so no
  \<^verbatim>\<open>size_t\<close> arithmetic wraps). Every library call whose precondition the C++ standard
  leaves to the caller returns an \<open>option\<close>: \<open>None\<close> stands for the run leaving defined
  behaviour or throwing (\<^verbatim>\<open>operator[]\<close> of a vector beyond its size, \<^verbatim>\<open>pop_back\<close> and
  \<^verbatim>\<open>erase(begin())\<close> on an empty string, \<^verbatim>\<open>substr\<close> beyond the end). A character read
  \<^verbatim>\<open>s[i]\<close> that stands right behind its own bounds test \<^verbatim>\<open>i < s.size() &&\<close> is written
  \<open>s ! i\<close>.
\<close>

subsection \<open>Library operations\<close>

definition at :: "'a list \<Rightarrow> nat \<Rightarrow> 'a option" where
  \<comment> \<open>\<^verbatim>\<open>v[i]\<close> of a \<^verbatim>\<open>std::vector\<close>\<close>
  "at v i = (if i < length v then Some (v ! i) else None)"

definition pop_back :: "string \<Rightarrow> string option" where
  "pop_back s = (if s = [] then None else Some (butlast s))"

definition erase_begin :: "string \<Rightarrow> string option" where
  \<comment> \<open>\<^verbatim>\<open>s.erase(s.begin())\<close>\<close>
  "erase_begin s = (if s = [] then None else Some (tl s))"

definition substr :: "string \<Rightarrow> nat \<Rightarrow> nat \<Rightarrow> string option" where
  \<comment> \<open>\<^verbatim>\<open>s.substr(pos, n)\<close>: throws when \<^verbatim>\<open>pos > s.size()\<close>\<close>
  "substr s pos n = (if length s < pos then None else Some (take n (drop pos s)))"

definition substr_from :: "string \<Rightarrow> nat \<Rightarrow> string option" where
  \<comment> \<open>\<^verbatim>\<open>s.substr(pos)\<close>\<close>
  "substr_from s pos = (if length s < pos then None else Some (drop pos s))"

definition newline :: char where
  "newline = CHR 0x0A"

fun getline :: "string \<Rightarrow> (string \<times> string) option" where
  \<comment> \<open>\<^verbatim>\<open>std::getline(in, line)\<close> on the rest of the stream: the line read and what is left,
      or \<open>None\<close> when nothing is left to read\<close>
  "getline [] = None"
| "getline (c # cs) =
     Some (takeWhile (\<lambda>x. x \<noteq> newline) (c # cs), drop 1 (dropWhile (\<lambda>x. x \<noteq> newline) (c # cs)))"

subsection \<open>String helpers\<close>

definition StartsWith :: "string \<Rightarrow> string \<Rightarrow> bool" where
  "StartsWith s prefix \<longleftrightarrow> length prefix \<le> length s \<and> take (length prefix) s = prefix"

definition EndsWith :: "string \<Rightarrow> string \<Rightarrow> bool" where
  "EndsWith s suffix \<longleftrightarrow>
     length suffix \<le> length s \<and> drop (length s - length suffix) s = suffix"

definition is_space :: "char \<Rightarrow> bool" where
  \<comment> \<open>the test both loops of \<^verbatim>\<open>Trim\<close> make: space, tab, carriage return, line feed\<close>
  "is_space c \<longleftrightarrow> c = CHR '' '' \<or> c = CHR 0x09 \<or> c = CHR 0x0D \<or> c = CHR 0x0A"

function Trim_i :: "string \<Rightarrow> nat \<Rightarrow> nat" where
  "Trim_i s i = (if i < length s \<and> is_space (s ! i) then Trim_i s (i + 1) else i)"
  by pat_completeness auto
termination
  by (relation "measure (\<lambda>(s, i). length s - i)") auto

function Trim_j :: "string \<Rightarrow> nat \<Rightarrow> nat \<Rightarrow> nat" where
  "Trim_j s i j = (if i < j \<and> is_space (s ! (j - 1)) then Trim_j s i (j - 1) else j)"
  by pat_completeness auto
termination
  by (relation "measure (\<lambda>(s, i, j). j)") auto

definition Trim :: "string \<Rightarrow> string option" where
  "Trim s = (let i = Trim_i s 0; j = Trim_j s i (length s) in substr s i (j - i))"

definition NormalizeSlashes :: "string \<Rightarrow> string" where
  "NormalizeSlashes s = map (\<lambda>c. if c = CHR 0x5C then CHR ''/'' else c) s"

subsection \<open>Compiled rules\<close>

record Pattern =
  pattern :: string
  negated :: bool
  dir_only :: bool
  anchored :: bool

fun Split_for :: "string \<Rightarrow> char \<Rightarrow> string list \<Rightarrow> string \<Rightarrow> string list" where
  "Split_for [] delim out cur = out @ [cur]"
| "Split_for (c # s) delim out cur =
     (if c = delim then Split_for s delim (out @ [cur]) []
      else Split_for s delim out (cur @ [c]))"

definition Split :: "string \<Rightarrow> char \<Rightarrow> string list" where
  "Split s delim = Split_for s delim [] []"

subsection \<open>The wildcard engine\<close>

text \<open>
  \<^verbatim>\<open>SegmentMatch\<close>: \<open>star\<close> holds \<^verbatim>\<open>star_pi\<close> and \<^verbatim>\<open>star_ti\<close>, which the source assigns
  together; \<open>None\<close> is their initial \<^verbatim>\<open>npos\<close>.
\<close>

function SegmentMatch_tail :: "string \<Rightarrow> nat \<Rightarrow> bool" where
  "SegmentMatch_tail pat pi =
     (if pi < length pat \<and> pat ! pi = CHR ''*'' then SegmentMatch_tail pat (pi + 1)
      else pi = length pat)"
  by pat_completeness auto
termination
  by (relation "measure (\<lambda>(pat, pi). length pat - pi)") auto

function SegmentMatch_while :: "string \<Rightarrow> string \<Rightarrow> nat \<Rightarrow> nat \<Rightarrow> (nat \<times> nat) option \<Rightarrow> bool" where
  "SegmentMatch_while pat text pi ti star =
     (if ti < length text then
        (if pi < length pat \<and> (pat ! pi = CHR ''?'' \<or> pat ! pi = text ! ti) then
           SegmentMatch_while pat text (pi + 1) (ti + 1) star
         else if pi < length pat \<and> pat ! pi = CHR ''*'' then
           SegmentMatch_while pat text (pi + 1) ti (Some (pi + 1, ti))
         else (case star of
             Some (star_pi, star_ti) \<Rightarrow>
               SegmentMatch_while pat text star_pi (star_ti + 1) (Some (star_pi, star_ti + 1))
           | None \<Rightarrow> False))
      else SegmentMatch_tail pat pi)"
  by pat_completeness auto
termination
  by (relation "measures
       [\<lambda>(pat, text, pi, ti, star). (case star of None \<Rightarrow> 0 | Some (sp, st) \<Rightarrow> if st \<le> ti then 0 else 1),
        \<lambda>(pat, text, pi, ti, star). (case star of None \<Rightarrow> length text + 1 | Some (sp, st) \<Rightarrow> length text - st),
        \<lambda>(pat, text, pi, ti, star). length text - ti,
        \<lambda>(pat, text, pi, ti, star). length pat - pi]")
     (auto split: option.splits)

definition SegmentMatch :: "string \<Rightarrow> string \<Rightarrow> bool" where
  "SegmentMatch pat text = SegmentMatch_while pat text 0 0 None"

text \<open>
  \<^verbatim>\<open>TokensMatch\<close> with the \<^verbatim>\<open>for (k = si; k <= stokens.size(); ++k)\<close> loop of its
  \<^verbatim>\<open>"**"\<close> branch as \<open>TokensMatch_for\<close>.
\<close>

function TokensMatch :: "string list \<Rightarrow> string list \<Rightarrow> nat \<Rightarrow> nat \<Rightarrow> bool option"
  and TokensMatch_for :: "string list \<Rightarrow> string list \<Rightarrow> nat \<Rightarrow> nat \<Rightarrow> bool option"
where
  "TokensMatch ptokens stokens pi si =
     (if pi = length ptokens then Some (si = length stokens)
      else do {
        p \<leftarrow> at ptokens pi;
        if p = ''**'' then TokensMatch_for ptokens stokens pi si
        else if si = length stokens then Some False
        else do {
          s \<leftarrow> at stokens si;
          if \<not> SegmentMatch p s then Some False
          else TokensMatch ptokens stokens (pi + 1) (si + 1)
        }
      })"
| "TokensMatch_for ptokens stokens pi k =
     (if k \<le> length stokens then do {
        m \<leftarrow> TokensMatch ptokens stokens (pi + 1) k;
        if m then Some True else TokensMatch_for ptokens stokens pi (k + 1)
      }
      else Some False)"
  by pat_completeness auto
termination
  by (relation "measures
       [\<lambda>x. (case x of
              Inl (ptokens, stokens, pi, si) \<Rightarrow> 2 * (length ptokens - pi)
            | Inr (ptokens, stokens, pi, k) \<Rightarrow> 2 * (length ptokens - (pi + 1)) + 1),
        \<lambda>x. (case x of
              Inl (ptokens, stokens, pi, si) \<Rightarrow> 0
            | Inr (ptokens, stokens, pi, k) \<Rightarrow> length stokens + 1 - k)]")
     (auto simp: at_def split: if_splits)

definition WildMatchPath :: "string \<Rightarrow> string \<Rightarrow> bool option" where
  "WildMatchPath pat path =
     (let ptokens = Split pat CHR ''/''; stokens = Split path CHR ''/''
      in TokensMatch ptokens stokens 0 0)"

subsection \<open>Matching one rule, and the rule set\<close>

function GitWildMatch_for :: "Pattern \<Rightarrow> string \<Rightarrow> nat \<Rightarrow> bool option" where
  \<comment> \<open>\<^verbatim>\<open>for (size_t i = 0; i < path.size(); ++i)\<close>, from \<open>i\<close> on\<close>
  "GitWildMatch_for p path i =
     (if i < length path then
        (if path ! i = CHR ''/'' \<and> i + 1 < length path then do {
           suffix \<leftarrow> substr_from path (i + 1);
           m \<leftarrow> WildMatchPath (pattern p) suffix;
           if m then Some True else GitWildMatch_for p path (i + 1)
         }
         else GitWildMatch_for p path (i + 1))
      else Some False)"
  by pat_completeness auto
termination
  by (relation "measure (\<lambda>(p, path, i). length path - i)") auto

definition GitWildMatch :: "Pattern \<Rightarrow> string \<Rightarrow> bool \<Rightarrow> bool option" where
  "GitWildMatch p rel_path is_dir =
     (if dir_only p \<and> \<not> is_dir then Some False
      else do {
        path \<leftarrow> (if EndsWith rel_path ''/'' then
                   (if \<not> dir_only p then pop_back rel_path else Some rel_path)
                 else Some rel_path);
        if anchored p then WildMatchPath (pattern p) path
        else do {
          m \<leftarrow> WildMatchPath (pattern p) path;
          if m then Some True else GitWildMatch_for p path 0
        }
      })"

definition cmp_path :: "Pattern \<Rightarrow> string \<Rightarrow> string" where
  \<comment> \<open>the value of the local \<^verbatim>\<open>path\<close> of \<^verbatim>\<open>GitWildMatch\<close> after lines 147 to 150 (the
      comparison path); lemma \<open>GitWildMatch_eq\<close> shows that the \<^verbatim>\<open>pop_back\<close> there is defined
      and yields it\<close>
  "cmp_path p rel_path =
     (if EndsWith rel_path ''/'' \<and> \<not> dir_only p then butlast rel_path else rel_path)"

fun IsIgnored_for :: "Pattern list \<Rightarrow> string \<Rightarrow> bool \<Rightarrow> bool \<Rightarrow> bool option" where
  \<comment> \<open>the loop over \<^verbatim>\<open>patterns\<close>; the last argument is \<^verbatim>\<open>matched\<close>\<close>
  "IsIgnored_for [] rel_posix is_dir matched = Some matched"
| "IsIgnored_for (p # patterns) rel_posix is_dir matched = do {
     m \<leftarrow> GitWildMatch p rel_posix is_dir;
     IsIgnored_for patterns rel_posix is_dir (if m then \<not> negated p else matched)
   }"

definition IsIgnored :: "Pattern list \<Rightarrow> string \<Rightarrow> bool \<Rightarrow> bool option" where
  "IsIgnored patterns rel_posix is_dir = IsIgnored_for patterns rel_posix is_dir False"

subsection \<open>The pattern compiler\<close>

function strip_slashes :: "string \<Rightarrow> string option" where
  \<comment> \<open>\<^verbatim>\<open>while (!line.empty() && line[0] == '/') line.erase(line.begin());\<close>\<close>
  "strip_slashes line =
     (if line \<noteq> [] \<and> line ! 0 = CHR ''/'' then do {
        line' \<leftarrow> erase_begin line;
        strip_slashes line'
      }
      else Some line)"
  by pat_completeness auto
termination
  by (relation "measure length") (auto simp: erase_begin_def split: if_splits)

definition LoadGitignoreSpec_rule :: "Pattern list \<Rightarrow> bool \<Rightarrow> string \<Rightarrow> Pattern list option" where
  \<comment> \<open>lines 181 to 193: from \<^verbatim>\<open>bool dir_only = false;\<close> to \<^verbatim>\<open>res.push_back\<close>\<close>
  "LoadGitignoreSpec_rule res neg line0 = do {
     (dir_only, line1) \<leftarrow>
       (if EndsWith line0 ''/'' then do { l \<leftarrow> pop_back line0; Some (True, l) }
        else Some (False, line0));
     (anchored, line2) \<leftarrow>
       (if StartsWith line1 ''/'' then do { l \<leftarrow> strip_slashes line1; Some (True, l) }
        else Some (False, line1));
     let line3 = NormalizeSlashes line2;
     let dir_only = (if line3 = ''**'' then False else dir_only);
     Some (res @ [\<lparr>pattern = line3, negated = neg, dir_only = dir_only, anchored = anchored\<rparr>])
   }"

definition LoadGitignoreSpec_line :: "Pattern list \<Rightarrow> string \<Rightarrow> Pattern list option" where
  \<comment> \<open>the body of the \<^verbatim>\<open>while (std::getline(in, line))\<close> loop; a \<^verbatim>\<open>continue\<close> returns
      \<open>res\<close> as it was\<close>
  "LoadGitignoreSpec_line res line0 = do {
     line \<leftarrow> Trim line0;
     if line = [] then Some res
     else if line \<noteq> [] \<and> line ! 0 = CHR ''#'' then Some res
     else if line \<noteq> [] \<and> line ! 0 = CHR ''!'' then do {
       line1 \<leftarrow> erase_begin line;
       line2 \<leftarrow> Trim line1;
       if line2 = [] then Some res
       else LoadGitignoreSpec_rule res True line2
     }
     else LoadGitignoreSpec_rule res False line
   }"

function getlines :: "string \<Rightarrow> string list" where
  \<comment> \<open>the lines that the successive \<^verbatim>\<open>std::getline\<close> calls of the loop read\<close>
  "getlines inp = (case getline inp of None \<Rightarrow> [] | Some (line, rest) \<Rightarrow> line # getlines rest)"
  by pat_completeness auto
termination
proof (relation "measure length")
  show "wf (measure length)" by simp
next
  fix inp :: string and x2 x y
  assume "getline inp = Some x2" and "(x, y) = x2"
  then have "y = drop 1 (dropWhile (\<lambda>c. c \<noteq> newline) inp)" and "inp \<noteq> []"
    by (cases inp; auto)+
  then have "length y < length inp"
    using length_dropWhile_le [of "\<lambda>c. c \<noteq> newline" inp]
    by (cases "dropWhile (\<lambda>c. c \<noteq> newline) inp") auto
  then show "(y, inp) \<in> measure length" by simp
qed

fun LoadGitignoreSpec_while :: "string list \<Rightarrow> Pattern list \<Rightarrow> Pattern list option" where
  "LoadGitignoreSpec_while [] res = Some res"
| "LoadGitignoreSpec_while (line # lines) res = do {
     res' \<leftarrow> LoadGitignoreSpec_line res line;
     LoadGitignoreSpec_while lines res'
   }"

definition LoadGitignoreSpec :: "string option \<Rightarrow> Pattern list option" where
  \<comment> \<open>the argument is the content of \<^verbatim>\<open>root / ".gitignore"\<close>; \<open>None\<close> when the file does
      not exist, is not a regular file or cannot be opened\<close>
  "LoadGitignoreSpec gitignore =
     (case gitignore of
        None \<Rightarrow> Some []
      | Some inp \<Rightarrow> LoadGitignoreSpec_while (getlines inp) [])"

subsection \<open>The pattern language of one segment, and the invariant of the matching loop\<close>

text \<open>
  What a segment pattern means, in the words of the specification: \<^verbatim>\<open>*\<close> matches any run of
  characters, the empty one included, \<^verbatim>\<open>?\<close> matches exactly one character, every other
  character matches itself. \<open>SegmentMatch\<close> is compared with it below.
\<close>

fun segment_spec :: "string \<Rightarrow> string \<Rightarrow> bool" where
  "segment_spec [] [] = True"
| "segment_spec [] (c # cs) = False"
| "segment_spec (p # ps) [] = (p = CHR ''*'' \<and> segment_spec ps [])"
| "segment_spec (p # ps) (c # cs) =
     (if p = CHR ''*'' then segment_spec ps (c # cs) \<or> segment_spec (p # ps) cs
      else (p = CHR ''?'' \<or> p = c) \<and> segment_spec ps cs)"

text \<open>
  For the proofs about \<open>SegmentMatch_while\<close>: \<open>lit p c\<close> says that the pattern character
  \<open>p\<close> is not a star and matches \<open>c\<close>; \<open>star_inv\<close> is the loop invariant once a star has
  been recorded (the pattern between the star and \<open>pi\<close> is star-free and matches the text
  between \<open>star_ti\<close> and \<open>ti\<close>), and \<open>star_goal\<close> is what the loop still has to decide.
\<close>

definition lit :: "char \<Rightarrow> char \<Rightarrow> bool" where
  "lit p c \<longleftrightarrow> p \<noteq> CHR ''*'' \<and> (p = CHR ''?'' \<or> p = c)"

definition star_inv :: "string \<Rightarrow> string \<Rightarrow> nat \<Rightarrow> nat \<Rightarrow> (nat \<times> nat) option \<Rightarrow> bool" where
  "star_inv pat text pi ti star \<longleftrightarrow>
     (case star of
        None \<Rightarrow> True
      | Some (sp, st) \<Rightarrow>
          1 \<le> sp \<and> sp \<le> pi \<and> st \<le> ti \<and> pat ! (sp - 1) = CHR ''*'' \<and>
          list_all2 lit (take (pi - sp) (drop sp pat)) (take (ti - st) (drop st text)))"

definition star_goal :: "string \<Rightarrow> string \<Rightarrow> nat \<Rightarrow> nat \<Rightarrow> (nat \<times> nat) option \<Rightarrow> bool" where
  "star_goal pat text pi ti star =
     (case star of
        None \<Rightarrow> segment_spec (drop pi pat) (drop ti text)
      | Some (sp, st) \<Rightarrow> segment_spec (drop (sp - 1) pat) (drop st text))"

declare Trim_i.simps [simp del]
declare Trim_j.simps [simp del]
declare SegmentMatch_tail.simps [simp del]
declare SegmentMatch_while.simps [simp del]
declare TokensMatch.simps [simp del]
declare TokensMatch_for.simps [simp del]
declare GitWildMatch_for.simps [simp del]
declare strip_slashes.simps [simp del]
declare getlines.simps [simp del]

section \<open>Auxiliary facts\<close>

lemma TokensMatch_end: "TokensMatch ptokens stokens (length ptokens) si = Some (si = length stokens)"
  by (subst TokensMatch.simps) simp

lemma TokensMatch_step:
  "pi < length ptokens \<Longrightarrow>
   TokensMatch ptokens stokens pi si =
     (if ptokens ! pi = ''**'' then TokensMatch_for ptokens stokens pi si
      else if si = length stokens then Some False
      else if length stokens < si then None
      else if \<not> SegmentMatch (ptokens ! pi) (stokens ! si) then Some False
      else TokensMatch ptokens stokens (pi + 1) (si + 1))"
  by (subst TokensMatch.simps) (auto simp: at_def)

lemma TokensMatch_beyond: "length ptokens < pi \<Longrightarrow> TokensMatch ptokens stokens pi si = None"
  by (subst TokensMatch.simps) (auto simp: at_def)

lemma TokensMatch_for_step:
  "TokensMatch_for ptokens stokens pi k =
     (if k \<le> length stokens then
        (case TokensMatch ptokens stokens (pi + 1) k of
           None \<Rightarrow> None
         | Some m \<Rightarrow> if m then Some True else TokensMatch_for ptokens stokens pi (k + 1))
      else Some False)"
  by (subst TokensMatch_for.simps) (auto split: option.splits)

lemma TokensMatch_in_range_aux:
  "pi \<le> length ptokens \<longrightarrow> si \<le> length stokens \<longrightarrow> TokensMatch ptokens stokens pi si \<noteq> None"
  "pi < length ptokens \<longrightarrow> TokensMatch_for ptokens stokens pi k \<noteq> None"
proof (induction ptokens stokens pi si and ptokens stokens pi k rule: TokensMatch_TokensMatch_for.induct)
  case (1 ptokens stokens pi si)
  show ?case
  proof (intro impI)
    assume pi: "pi \<le> length ptokens" and si: "si \<le> length stokens"
    show "TokensMatch ptokens stokens pi si \<noteq> None"
    proof (cases "pi = length ptokens")
      case True
      then show ?thesis by (simp add: TokensMatch_end)
    next
      case False
      with pi have lt: "pi < length ptokens" by simp
      then have atp: "at ptokens pi = Some (ptokens ! pi)" by (simp add: at_def)
      show ?thesis
      proof (cases "ptokens ! pi = ''**''")
        case True
        with 1(1) [OF False atp] lt show ?thesis by (auto simp: TokensMatch_step)
      next
        case nstar: False
        show ?thesis
        proof (cases "si = length stokens")
          case True
          with lt nstar show ?thesis by (auto simp: TokensMatch_step)
        next
          case sne: False
          with si have slt: "si < length stokens" by simp
          then have ats: "at stokens si = Some (stokens ! si)" by (simp add: at_def)
          from 1(2) [OF False atp nstar sne ats] lt slt nstar show ?thesis
            by (auto simp: TokensMatch_step)
        qed
      qed
    qed
  qed
next
  case (2 ptokens stokens pi k)
  show ?case
  proof (intro impI)
    assume lt: "pi < length ptokens"
    show "TokensMatch_for ptokens stokens pi k \<noteq> None"
    proof (cases "k \<le> length stokens")
      case False
      then show ?thesis by (subst TokensMatch_for_step) auto
    next
      case True
      with 2(1) lt obtain m where m: "TokensMatch ptokens stokens (pi + 1) k = Some m" by auto
      with 2(2) [OF True m] lt True show ?thesis by (subst TokensMatch_for_step) auto
    qed
  qed
qed

lemma TokensMatch_in_range:
  "pi \<le> length ptokens \<Longrightarrow> si \<le> length stokens \<Longrightarrow> \<exists>b. TokensMatch ptokens stokens pi si = Some b"
  using TokensMatch_in_range_aux(1) [of pi ptokens si stokens] by auto

lemma TokensMatch_for_eq:
  assumes "pi < length ptokens"
  shows "TokensMatch_for ptokens stokens pi k =
    Some (\<exists>k'. k \<le> k' \<and> k' \<le> length stokens \<and> TokensMatch ptokens stokens (pi + 1) k' = Some True)"
proof (induction "Suc (length stokens) - k" arbitrary: k)
  case 0
  then have "\<not> k \<le> length stokens" by simp
  then show ?case by (subst TokensMatch_for_step) auto
next
  case (Suc n)
  then have k: "k \<le> length stokens" by simp
  from assms k obtain m where m: "TokensMatch ptokens stokens (pi + 1) k = Some m"
    using TokensMatch_in_range [of "pi + 1" ptokens k stokens] by auto
  show ?case
  proof (cases m)
    case True
    with m k show ?thesis
      by (subst TokensMatch_for_step) auto
  next
    case False
    from Suc have "n = Suc (length stokens) - (k + 1)" by simp
    from Suc(1) [OF this]
    have IH: "TokensMatch_for ptokens stokens pi (k + 1) =
      Some (\<exists>k'. k + 1 \<le> k' \<and> k' \<le> length stokens \<and> TokensMatch ptokens stokens (pi + 1) k' = Some True)" .
    have "(\<exists>k'. k + 1 \<le> k' \<and> k' \<le> length stokens \<and> TokensMatch ptokens stokens (pi + 1) k' = Some True)
      = (\<exists>k'. k \<le> k' \<and> k' \<le> length stokens \<and> TokensMatch ptokens stokens (pi + 1) k' = Some True)"
    proof -
      have "k' = k \<or> k + 1 \<le> k'" if "k \<le> k'" for k' using that by auto
      with m False show ?thesis by (metis Suc_eq_plus1 Suc_leD option.inject)
    qed
    with IH m False k show ?thesis
      by (subst TokensMatch_for_step) auto
  qed
qed


lemma WildMatchPath_Some: "\<exists>b. WildMatchPath pat path = Some b"
  unfolding WildMatchPath_def Let_def by (rule TokensMatch_in_range) simp_all

lemma GitWildMatch_for_eq:
  "GitWildMatch_for p path i =
     Some (\<exists>j. i \<le> j \<and> j < length path \<and> path ! j = CHR ''/'' \<and> j + 1 < length path \<and>
               WildMatchPath (pattern p) (drop (j + 1) path) = Some True)"
proof (induction "length path - i" arbitrary: i)
  case 0
  then have "\<not> i < length path" by simp
  then show ?case by (subst GitWildMatch_for.simps) auto
next
  case (Suc n)
  then have i: "i < length path" by simp
  from Suc have "n = length path - (i + 1)" by simp
  from Suc(1) [OF this]
  have IH: "GitWildMatch_for p path (i + 1) =
     Some (\<exists>j. i + 1 \<le> j \<and> j < length path \<and> path ! j = CHR ''/'' \<and> j + 1 < length path \<and>
               WildMatchPath (pattern p) (drop (j + 1) path) = Some True)" .
  let ?hit = "\<lambda>j. j < length path \<and> path ! j = CHR ''/'' \<and> j + 1 < length path \<and>
               WildMatchPath (pattern p) (drop (j + 1) path) = Some True"
  have split: "(\<exists>j. i \<le> j \<and> ?hit j) \<longleftrightarrow> ?hit i \<or> (\<exists>j. i + 1 \<le> j \<and> ?hit j)"
    (is "?L \<longleftrightarrow> ?H \<or> ?R")
  proof
    assume ?L
    then obtain j where j: "i \<le> j" "?hit j" by blast
    show "?H \<or> ?R"
    proof (cases "j = i")
      case True
      with j show ?thesis by blast
    next
      case False
      with j have "i + 1 \<le> j" by simp
      with j show ?thesis by blast
    qed
  next
    assume "?H \<or> ?R"
    then show ?L
    proof
      assume ?H
      then show ?L by blast
    next
      assume ?R
      then obtain j where "i + 1 \<le> j" "?hit j" by blast
      then have "i \<le> j" "?hit j" by simp_all
      then show ?L by blast
    qed
  qed
  obtain m where m: "WildMatchPath (pattern p) (drop (i + 1) path) = Some m"
    using WildMatchPath_Some by blast
  show ?case
  proof (cases "path ! i = CHR ''/'' \<and> i + 1 < length path")
    case True
    then have step: "GitWildMatch_for p path i = (if m then Some True else GitWildMatch_for p path (i + 1))"
      using i m by (subst GitWildMatch_for.simps) (simp add: substr_from_def)
    from True i m have "?hit i \<longleftrightarrow> m" by simp
    with split have "(\<exists>j. i \<le> j \<and> ?hit j) \<longleftrightarrow> m \<or> (\<exists>j. i + 1 \<le> j \<and> ?hit j)" by blast
    then show ?thesis unfolding step IH by (cases m) simp_all
  next
    case False
    then have step: "GitWildMatch_for p path i = GitWildMatch_for p path (i + 1)"
      using i by (subst GitWildMatch_for.simps) auto
    from False have "\<not> ?hit i" by blast
    with split have "(\<exists>j. i \<le> j \<and> ?hit j) \<longleftrightarrow> (\<exists>j. i + 1 \<le> j \<and> ?hit j)" by blast
    then show ?thesis unfolding step IH by simp
  qed
qed

lemma EndsWith_slash: "EndsWith s ''/'' \<longleftrightarrow> s \<noteq> [] \<and> last s = CHR ''/''"
proof (cases s rule: rev_cases)
  case Nil
  then show ?thesis by (simp add: EndsWith_def)
next
  case (snoc ys y)
  then show ?thesis by (auto simp: EndsWith_def)
qed

lemma GitWildMatch_eq:
  "GitWildMatch p rel_path is_dir =
     (if dir_only p \<and> \<not> is_dir then Some False
      else if anchored p then WildMatchPath (pattern p) (cmp_path p rel_path)
      else Some (WildMatchPath (pattern p) (cmp_path p rel_path) = Some True \<or>
                 (\<exists>j. j < length (cmp_path p rel_path) \<and> cmp_path p rel_path ! j = CHR ''/'' \<and>
                      j + 1 < length (cmp_path p rel_path) \<and>
                      WildMatchPath (pattern p) (drop (j + 1) (cmp_path p rel_path)) = Some True)))"
proof -
  have path: "(if EndsWith rel_path ''/'' then
                   (if \<not> dir_only p then pop_back rel_path else Some rel_path)
                 else Some rel_path) = Some (cmp_path p rel_path)"
    by (auto simp: cmp_path_def pop_back_def EndsWith_slash)
  obtain m where m: "WildMatchPath (pattern p) (cmp_path p rel_path) = Some m"
    using WildMatchPath_Some by blast
  show ?thesis
  proof (cases m)
    case True
    with m show ?thesis unfolding GitWildMatch_def path by simp
  next
    case False
    with m show ?thesis unfolding GitWildMatch_def path by (simp add: GitWildMatch_for_eq)
  qed
qed

lemma GitWildMatch_Some: "\<exists>b. GitWildMatch p rel_path is_dir = Some b"
  using WildMatchPath_Some [of "pattern p" "cmp_path p rel_path"]
  by (auto simp: GitWildMatch_eq)

lemma IsIgnored_for_eq:
  "IsIgnored_for patterns rel_posix is_dir matched =
     Some (case filter (\<lambda>p. GitWildMatch p rel_posix is_dir = Some True) patterns of
             [] \<Rightarrow> matched
           | ms \<Rightarrow> \<not> negated (last ms))"
proof (induction patterns arbitrary: matched)
  case Nil
  show ?case by simp
next
  case (Cons p patterns)
  obtain m where m: "GitWildMatch p rel_posix is_dir = Some m"
    using GitWildMatch_Some by blast
  show ?case
  proof (cases m)
    case True
    with m Cons show ?thesis by (simp split: list.splits)
  next
    case False
    with m Cons show ?thesis by (simp split: list.splits)
  qed
qed


lemma Trim_i_le: "i \<le> length s \<Longrightarrow> Trim_i s i \<le> length s"
proof (induction s i rule: Trim_i.induct)
  case (1 s i)
  then show ?case by (subst Trim_i.simps) auto
qed

lemma Trim_Some: "\<exists>t. Trim s = Some t"
  using Trim_i_le [of 0 s] by (simp add: Trim_def Let_def substr_def)

lemma Trim_i_eq:
  "i \<le> length s \<Longrightarrow> Trim_i s i = i + length (takeWhile is_space (drop i s))"
proof (induction s i rule: Trim_i.induct)
  case (1 s i)
  show ?case
  proof (cases "i < length s")
    case True
    then have d: "drop i s = s ! i # drop (i + 1) s" by (simp add: Cons_nth_drop_Suc)
    show ?thesis
    proof (cases "is_space (s ! i)")
      case sp: True
      with True 1 have "Trim_i s (i + 1) = i + 1 + length (takeWhile is_space (drop (i + 1) s))"
        by simp
      with True sp show ?thesis by (subst Trim_i.simps) (simp add: d)
    next
      case False
      with True show ?thesis by (subst Trim_i.simps) (simp add: d)
    qed
  next
    case False
    with 1(2) show ?thesis by (subst Trim_i.simps) simp
  qed
qed

lemma Trim_j_eq:
  "i \<le> j \<Longrightarrow> j \<le> length s \<Longrightarrow>
   Trim_j s i j = j - length (takeWhile is_space (rev (take (j - i) (drop i s))))"
proof (induction s i j rule: Trim_j.induct)
  case (1 s i j)
  show ?case
  proof (cases "i < j")
    case True
    with 1(3) have "j - i - 1 < length (drop i s)" by simp
    then have "take (Suc (j - i - 1)) (drop i s) = take (j - i - 1) (drop i s) @ [drop i s ! (j - i - 1)]"
      by (rule take_Suc_conv_app_nth)
    moreover from True 1(3) have "drop i s ! (j - i - 1) = s ! (j - 1)" by simp
    moreover from True have "Suc (j - i - 1) = j - i" by simp
    ultimately have t: "take (j - i) (drop i s) = take (j - 1 - i) (drop i s) @ [s ! (j - 1)]"
      by simp
    show ?thesis
    proof (cases "is_space (s ! (j - 1))")
      case sp: True
      with True 1 have IH: "Trim_j s i (j - 1) =
          j - 1 - length (takeWhile is_space (rev (take (j - 1 - i) (drop i s))))"
        by simp
      from True sp IH show ?thesis by (subst Trim_j.simps) (simp add: t)
    next
      case False
      with True show ?thesis by (subst Trim_j.simps) (simp add: t)
    qed
  next
    case False
    with 1(2) have "j = i" by simp
    then show ?thesis by (subst Trim_j.simps) simp
  qed
qed

lemma Trim_eq: "Trim s = Some (rev (dropWhile is_space (rev (dropWhile is_space s))))"
proof -
  let ?d = "dropWhile is_space s"
  let ?i = "length (takeWhile is_space s)"
  have i: "Trim_i s 0 = ?i" using Trim_i_eq [of 0 s] by simp
  have il: "?i \<le> length s" by (rule length_takeWhile_le)
  have d: "drop ?i s = ?d" by (rule dropWhile_eq_drop [symmetric])
  have ld: "length s - ?i = length ?d" using d by (metis length_drop)
  have "Trim_j s ?i (length s) = length s - length (takeWhile is_space (rev (take (length s - ?i) (drop ?i s))))"
    using il by (rule Trim_j_eq) simp
  then have j: "Trim_j s ?i (length s) = length s - length (takeWhile is_space (rev ?d))"
    by (simp add: d ld)
  have split: "?d = rev (dropWhile is_space (rev ?d)) @ rev (takeWhile is_space (rev ?d))"
    by (metis rev_append rev_rev_ident takeWhile_dropWhile_id)
  have len: "length ?d = length (dropWhile is_space (rev ?d)) + length (takeWhile is_space (rev ?d))"
    by (metis add.commute length_append length_rev takeWhile_dropWhile_id)
  have "length s - length (takeWhile is_space (rev ?d)) - ?i = length (dropWhile is_space (rev ?d))"
    using ld len il by linarith
  moreover have "take (length (dropWhile is_space (rev ?d))) ?d = rev (dropWhile is_space (rev ?d))"
    by (subst split) simp
  ultimately show ?thesis
    using il by (simp add: Trim_def Let_def i j substr_def d)
qed

lemma not_space_bang: "\<not> is_space CHR ''!''" and not_space_hash: "\<not> is_space CHR ''#''"
  by (simp_all add: is_space_def)

lemma dropWhile_prefix: "\<forall>c\<in>set ws. P c \<Longrightarrow> dropWhile P (ws @ ys) = dropWhile P ys"
  by (induction ws) auto

lemma Trim_blank:
  assumes "\<forall>c\<in>set s. is_space c"
  shows "Trim s = Some []"
proof -
  from assms have d: "dropWhile is_space s = []"
    by (metis dropWhile_eq_Nil_conv)
  show ?thesis unfolding Trim_eq d by simp
qed

lemma Trim_hash:
  assumes "\<forall>c\<in>set ws. is_space c"
  shows "\<exists>r. Trim (ws @ CHR ''#'' # rest) = Some (CHR ''#'' # r)"
proof -
  have front: "dropWhile is_space (ws @ CHR ''#'' # rest) = CHR ''#'' # rest"
    using assms not_space_hash by (simp add: dropWhile_prefix)
  have "\<exists>r. rev (dropWhile is_space (rev (CHR ''#'' # rest))) = CHR ''#'' # r"
  proof (cases "\<forall>c\<in>set (rev rest). is_space c")
    case True
    then have "dropWhile is_space (rev rest @ [CHR ''#'']) = [CHR ''#'']"
      using not_space_hash by (simp add: dropWhile_prefix)
    then show ?thesis by simp
  next
    case False
    then have "dropWhile is_space (rev rest @ [CHR ''#'']) = dropWhile is_space (rev rest) @ [CHR ''#'']"
      by (metis dropWhile_append1)
    then show ?thesis by simp
  qed
  with front show ?thesis by (simp add: Trim_eq)
qed

lemma Trim_bang:
  assumes "\<forall>c\<in>set ws1. is_space c" and "\<forall>c\<in>set ws2. is_space c"
  shows "Trim (ws1 @ CHR ''!'' # ws2) = Some ''!''"
proof -
  have front: "dropWhile is_space (ws1 @ CHR ''!'' # ws2) = CHR ''!'' # ws2"
    using assms not_space_bang by (simp add: dropWhile_prefix)
  from assms(2) have "\<forall>c\<in>set (rev ws2). is_space c" by simp
  then have "dropWhile is_space (rev ws2 @ [CHR ''!'']) = [CHR ''!'']"
    using not_space_bang by (simp add: dropWhile_prefix)
  then have "rev (dropWhile is_space (rev (CHR ''!'' # ws2))) = ''!''" by simp
  with front show ?thesis by (simp add: Trim_eq)
qed

lemma LoadGitignoreSpec_line_unusable:
  assumes "(\<forall>c\<in>set line. is_space c)
     \<or> (\<exists>ws rest. line = ws @ CHR ''#'' # rest \<and> (\<forall>c\<in>set ws. is_space c))
     \<or> (\<exists>ws1 ws2. line = ws1 @ CHR ''!'' # ws2 \<and> (\<forall>c\<in>set ws1. is_space c) \<and>
           (\<forall>c\<in>set ws2. is_space c))"
  shows "LoadGitignoreSpec_line res line = Some res"
  using assms
proof (elim disjE exE conjE)
  assume "\<forall>c\<in>set line. is_space c"
  then have "Trim line = Some []" by (rule Trim_blank)
  then show ?thesis by (simp add: LoadGitignoreSpec_line_def)
next
  fix ws rest assume "line = ws @ CHR ''#'' # rest" and "\<forall>c\<in>set ws. is_space c"
  then obtain r where "Trim line = Some (CHR ''#'' # r)" using Trim_hash by blast
  then show ?thesis by (simp add: LoadGitignoreSpec_line_def)
next
  fix ws1 ws2 assume "line = ws1 @ CHR ''!'' # ws2" and "\<forall>c\<in>set ws1. is_space c"
    and "\<forall>c\<in>set ws2. is_space c"
  then have "Trim line = Some ''!''" using Trim_bang by blast
  moreover have "Trim [] = Some []" by (simp add: Trim_eq)
  ultimately show ?thesis by (simp add: LoadGitignoreSpec_line_def erase_begin_def)
qed

lemma strip_slashes_Some: "\<exists>t. strip_slashes s = Some t"
proof (induction s)
  case Nil
  show ?case by (subst strip_slashes.simps) simp
next
  case (Cons c s)
  then show ?case by (subst strip_slashes.simps) (simp add: erase_begin_def)
qed

lemma LoadGitignoreSpec_rule_Some:
  "\<exists>p. LoadGitignoreSpec_rule res neg line = Some (res @ [p]) \<and> negated p = neg \<and>
       (pattern p = ''**'' \<longrightarrow> \<not> dir_only p)"
proof -
  have "\<exists>d l1. (if EndsWith line ''/'' then do { l \<leftarrow> pop_back line; Some (True, l) }
        else Some (False, line)) = Some (d, l1)"
    by (cases "EndsWith line ''/''") (auto simp: EndsWith_slash pop_back_def)
  then obtain d l1 where 1: "(if EndsWith line ''/'' then do { l \<leftarrow> pop_back line; Some (True, l) }
        else Some (False, line)) = Some (d, l1)"
    by blast
  have "\<exists>a l2. (if StartsWith l1 ''/'' then do { l \<leftarrow> strip_slashes l1; Some (True, l) }
        else Some (False, l1)) = Some (a, l2)"
    using strip_slashes_Some [of l1] by (cases "StartsWith l1 ''/''") auto
  then obtain a l2 where 2: "(if StartsWith l1 ''/'' then do { l \<leftarrow> strip_slashes l1; Some (True, l) }
        else Some (False, l1)) = Some (a, l2)"
    by blast
  show ?thesis
    unfolding LoadGitignoreSpec_rule_def 1 by (simp add: 2 Let_def)
qed

lemma LoadGitignoreSpec_line_cases:
  "LoadGitignoreSpec_line res line = Some res \<or>
   (\<exists>p. LoadGitignoreSpec_line res line = Some (res @ [p]) \<and> (pattern p = ''**'' \<longrightarrow> \<not> dir_only p))"
proof -
  obtain t where t: "Trim line = Some t" using Trim_Some by blast
  show ?thesis
  proof (cases "t = [] \<or> t ! 0 = CHR ''#''")
    case True
    with t show ?thesis by (auto simp: LoadGitignoreSpec_line_def)
  next
    case False
    then have ne: "t \<noteq> []" "t ! 0 \<noteq> CHR ''#''" by auto
    show ?thesis
    proof (cases "t ! 0 = CHR ''!''")
      case True
      obtain t2 where t2: "Trim (tl t) = Some t2" using Trim_Some by blast
      from LoadGitignoreSpec_rule_Some [of res True t2] t t2 ne True
      show ?thesis by (cases "t2 = []") (auto simp: LoadGitignoreSpec_line_def erase_begin_def)
    next
      case False
      from LoadGitignoreSpec_rule_Some [of res False t] t ne False
      show ?thesis by (auto simp: LoadGitignoreSpec_line_def)
    qed
  qed
qed

lemma LoadGitignoreSpec_while_Some:
  "\<exists>add. LoadGitignoreSpec_while lines res = Some (res @ add) \<and>
         (\<forall>p\<in>set add. pattern p = ''**'' \<longrightarrow> \<not> dir_only p)"
proof (induction lines arbitrary: res)
  case Nil
  show ?case by simp
next
  case (Cons line lines)
  from LoadGitignoreSpec_line_cases [of res line] show ?case
  proof
    assume "LoadGitignoreSpec_line res line = Some res"
    with Cons [of res] show ?thesis by simp
  next
    assume "\<exists>p. LoadGitignoreSpec_line res line = Some (res @ [p]) \<and> (pattern p = ''**'' \<longrightarrow> \<not> dir_only p)"
    then obtain p where p: "LoadGitignoreSpec_line res line = Some (res @ [p])"
      "pattern p = ''**'' \<longrightarrow> \<not> dir_only p" by blast
    from Cons [of "res @ [p]"] obtain add where
      add: "LoadGitignoreSpec_while lines (res @ [p]) = Some ((res @ [p]) @ add)"
      "\<forall>p\<in>set add. pattern p = ''**'' \<longrightarrow> \<not> dir_only p" by blast
    from p add have "LoadGitignoreSpec_while (line # lines) res = Some (res @ (p # add))" by simp
    moreover from p add have "\<forall>q\<in>set (p # add). pattern q = ''**'' \<longrightarrow> \<not> dir_only q" by simp
    ultimately show ?thesis by blast
  qed
qed

lemma LoadGitignoreSpec_Some:
  "\<exists>rules. LoadGitignoreSpec gitignore = Some rules \<and>
         (\<forall>p\<in>set rules. pattern p = ''**'' \<longrightarrow> \<not> dir_only p)"
proof (cases gitignore)
  case None
  then show ?thesis by (simp add: LoadGitignoreSpec_def)
next
  case (Some inp)
  with LoadGitignoreSpec_while_Some [of "getlines inp" "[]"] show ?thesis
    by (simp add: LoadGitignoreSpec_def)
qed

lemma LoadGitignoreSpec_while_append:
  "LoadGitignoreSpec_while (xs @ ys) res =
     LoadGitignoreSpec_while xs res \<bind> LoadGitignoreSpec_while ys"
proof (induction xs arbitrary: res)
  case Nil
  show ?case by simp
next
  case (Cons x xs)
  show ?case by (cases "LoadGitignoreSpec_line res x") (simp_all add: Cons)
qed

text \<open>Every recursive call of \<open>TokensMatch\<close> and of its loop goes down in one measure.\<close>

lemma TokensMatch_calls_decrease:
  "TokensMatch_TokensMatch_for_rel y x \<Longrightarrow>
   (y, x) \<in> measures
       [\<lambda>x. (case x of
              Inl (ptokens, stokens, pi, si) \<Rightarrow> 2 * (length ptokens - pi)
            | Inr (ptokens, stokens, pi, k) \<Rightarrow> 2 * (length ptokens - (pi + 1)) + 1),
        \<lambda>x. (case x of
              Inl (ptokens, stokens, pi, si) \<Rightarrow> 0
            | Inr (ptokens, stokens, pi, k) \<Rightarrow> length stokens + 1 - k)]"
  by (induct rule: TokensMatch_TokensMatch_for_rel.induct) (auto simp: at_def split: if_splits)

lemma TokensMatch_dom_all: "TokensMatch_TokensMatch_for_dom x"
proof -
  let ?R = "measures
       [\<lambda>x. (case x of
              Inl (ptokens, stokens, pi, si) \<Rightarrow> 2 * (length ptokens - pi)
            | Inr (ptokens, stokens, pi, k) \<Rightarrow> 2 * (length ptokens - (pi + 1)) + 1),
        \<lambda>x. (case x of
              Inl (ptokens, stokens, pi, si) \<Rightarrow> 0
            | Inr (ptokens :: string list, stokens :: string list, pi :: nat, k) \<Rightarrow> length stokens + 1 - k)]"
  have wf: "wf ?R" by simp
  show ?thesis
  proof (induction x rule: wf_induct_rule [OF wf])
    case (1 x)
    show ?case
    proof (rule accpI)
      fix y assume "TokensMatch_TokensMatch_for_rel y x"
      then have "(y, x) \<in> ?R" by (rule TokensMatch_calls_decrease)
      then show "TokensMatch_TokensMatch_for_dom y" by (rule 1)
    qed
  qed
qed

subsection \<open>\<open>SegmentMatch\<close> against the pattern language\<close>

lemma spec_star_Cons: "segment_spec (CHR ''*'' # ps) (c # cs) \<longleftrightarrow>
    segment_spec ps (c # cs) \<or> segment_spec (CHR ''*'' # ps) cs"
  by simp

lemma spec_star_Nil: "segment_spec (CHR ''*'' # ps) [] \<longleftrightarrow> segment_spec ps []"
  by simp

lemma spec_star_skip: "segment_spec ps t \<Longrightarrow> segment_spec (CHR ''*'' # ps) t"
  by (cases t) simp_all

lemma spec_star_absorb: "segment_spec (CHR ''*'' # ps) t \<Longrightarrow> segment_spec (CHR ''*'' # ps) (u @ t)"
  by (induction u) simp_all

lemma spec_star_iff:
  "segment_spec (CHR ''*'' # ps) t \<longleftrightarrow> (\<exists>k\<le>length t. segment_spec ps (drop k t))"
proof (induction t)
  case Nil
  show ?case by simp
next
  case (Cons c cs)
  have "(\<exists>k\<le>length (c # cs). segment_spec ps (drop k (c # cs))) \<longleftrightarrow>
        segment_spec ps (c # cs) \<or> (\<exists>k\<le>length cs. segment_spec ps (drop k cs))"
    (is "?L \<longleftrightarrow> ?A \<or> ?B")
  proof
    assume ?L
    then obtain k where k: "k \<le> length (c # cs)" "segment_spec ps (drop k (c # cs))" by blast
    show "?A \<or> ?B"
    proof (cases k)
      case 0
      with k show ?thesis by simp
    next
      case (Suc j)
      with k have "j \<le> length cs" "segment_spec ps (drop j cs)" by simp_all
      then show ?thesis by blast
    qed
  next
    assume "?A \<or> ?B"
    then show ?L
    proof
      assume ?A
      then have "0 \<le> length (c # cs) \<and> segment_spec ps (drop 0 (c # cs))" by simp
      then show ?L by blast
    next
      assume ?B
      then obtain j where "j \<le> length cs" "segment_spec ps (drop j cs)" by blast
      then have "Suc j \<le> length (c # cs) \<and> segment_spec ps (drop (Suc j) (c # cs))" by simp
      then show ?L by blast
    qed
  qed
  with Cons show ?case by simp
qed

lemma spec_literal_prefix:
  "list_all2 lit q u \<Longrightarrow> segment_spec (q @ ps) (u @ t) = segment_spec ps t"
  by (induction q u rule: list_all2_induct) (simp_all add: lit_def)

lemma spec_literal_prefixD:
  "\<forall>p\<in>set q. p \<noteq> CHR ''*'' \<Longrightarrow> segment_spec (q @ ps) t \<Longrightarrow>
     length q \<le> length t \<and> list_all2 lit q (take (length q) t) \<and> segment_spec ps (drop (length q) t)"
proof (induction q arbitrary: t)
  case Nil
  then show ?case by simp
next
  case (Cons p q)
  show ?case
  proof (cases t)
    case Nil
    with Cons.prems show ?thesis by simp
  next
    case (Cons c cs)
    with Cons.prems have "p = CHR ''?'' \<or> p = c" "segment_spec (q @ ps) cs" "p \<noteq> CHR ''*''"
      by simp_all
    with Cons.IH [of cs] Cons.prems(1) Cons show ?thesis by (simp add: lit_def)
  qed
qed

lemma spec_Nil: "segment_spec ps [] \<longleftrightarrow> (\<forall>p\<in>set ps. p = CHR ''*'')"
  by (induction ps) auto

lemma SegmentMatch_tail_eq:
  "pi \<le> length pat \<Longrightarrow> SegmentMatch_tail pat pi = segment_spec (drop pi pat) []"
proof (induction pat pi rule: SegmentMatch_tail.induct)
  case (1 pat pi)
  show ?case
  proof (cases "pi < length pat")
    case True
    then have d: "drop pi pat = pat ! pi # drop (pi + 1) pat" by (simp add: Cons_nth_drop_Suc)
    show ?thesis
    proof (cases "pat ! pi = CHR ''*''")
      case star: True
      with True 1 have "SegmentMatch_tail pat (pi + 1) = segment_spec (drop (pi + 1) pat) []" by simp
      with True star show ?thesis by (subst SegmentMatch_tail.simps) (simp add: d)
    next
      case False
      with True show ?thesis by (subst SegmentMatch_tail.simps) (simp add: d)
    qed
  next
    case False
    with 1(2) show ?thesis by (subst SegmentMatch_tail.simps) simp
  qed
qed

lemma star_inv_split:
  assumes inv: "star_inv pat text pi ti (Some (sp, st))"
    and pi: "pi \<le> length pat" and ti: "ti \<le> length text"
  shows "drop (sp - 1) pat = CHR ''*'' # drop sp pat"
    and "drop sp pat = take (pi - sp) (drop sp pat) @ drop pi pat"
    and "drop st text = take (ti - st) (drop st text) @ drop ti text"
    and "pi - sp = ti - st"
    and "list_all2 lit (take (pi - sp) (drop sp pat)) (take (ti - st) (drop st text))"
proof -
  from inv have sp: "1 \<le> sp" "sp \<le> pi" and st: "st \<le> ti" and star: "pat ! (sp - 1) = CHR ''*''"
    and all: "list_all2 lit (take (pi - sp) (drop sp pat)) (take (ti - st) (drop st text))"
    by (simp_all add: star_inv_def)
  from sp pi have "sp - 1 < length pat" by simp
  then have "drop (sp - 1) pat = pat ! (sp - 1) # drop (Suc (sp - 1)) pat"
    by (simp add: Cons_nth_drop_Suc)
  with sp star show "drop (sp - 1) pat = CHR ''*'' # drop sp pat" by simp
  have "drop (pi - sp) (drop sp pat) = drop pi pat" using sp by simp
  then show "drop sp pat = take (pi - sp) (drop sp pat) @ drop pi pat"
    by (metis append_take_drop_id)
  have "drop (ti - st) (drop st text) = drop ti text" using st by simp
  then show "drop st text = take (ti - st) (drop st text) @ drop ti text"
    by (metis append_take_drop_id)
  from all have "length (take (pi - sp) (drop sp pat)) = length (take (ti - st) (drop st text))"
    by (rule list_all2_lengthD)
  with sp st pi ti show "pi - sp = ti - st" by simp
  from all show "list_all2 lit (take (pi - sp) (drop sp pat)) (take (ti - st) (drop st text))" .
qed

lemma star_inv_step:
  assumes inv: "star_inv pat text pi ti (Some (sp, st))"
    and pi: "pi < length pat" and ti: "ti < length text"
    and l: "lit (pat ! pi) (text ! ti)"
  shows "star_inv pat text (pi + 1) (ti + 1) (Some (sp, st))"
proof -
  from inv have sp: "1 \<le> sp" "sp \<le> pi" and st: "st \<le> ti" and star: "pat ! (sp - 1) = CHR ''*''"
    and all: "list_all2 lit (take (pi - sp) (drop sp pat)) (take (ti - st) (drop st text))"
    by (simp_all add: star_inv_def)
  from sp pi have "pi - sp < length (drop sp pat)" by simp
  then have "take (Suc (pi - sp)) (drop sp pat) = take (pi - sp) (drop sp pat) @ [drop sp pat ! (pi - sp)]"
    by (rule take_Suc_conv_app_nth)
  with sp pi have q: "take (pi + 1 - sp) (drop sp pat) = take (pi - sp) (drop sp pat) @ [pat ! pi]"
    by (simp add: Suc_diff_le)
  from st ti have "ti - st < length (drop st text)" by simp
  then have "take (Suc (ti - st)) (drop st text) = take (ti - st) (drop st text) @ [drop st text ! (ti - st)]"
    by (rule take_Suc_conv_app_nth)
  with st ti have u: "take (ti + 1 - st) (drop st text) = take (ti - st) (drop st text) @ [text ! ti]"
    by (simp add: Suc_diff_le)
  from all l have "list_all2 lit (take (pi + 1 - sp) (drop sp pat)) (take (ti + 1 - st) (drop st text))"
    unfolding q u by (simp add: list_all2_appendI)
  with sp st star show ?thesis by (simp add: star_inv_def)
qed

lemma lit_star_free: "list_all2 lit q u \<Longrightarrow> \<forall>p\<in>set q. p \<noteq> CHR ''*''"
  by (induction q u rule: list_all2_induct) (simp_all add: lit_def)

lemma drop_past_prefix:
  assumes "n = length u"
  shows "drop n (drop k (u @ t)) = drop k t"
proof -
  have "drop n (drop k (u @ t)) = drop k (drop n (u @ t))"
    by (simp only: drop_drop add.commute)
  also have "\<dots> = drop k t" using assms by simp
  finally show ?thesis .
qed

lemma SegmentMatch_while_end:
  "\<not> ti < length str \<Longrightarrow> SegmentMatch_while pat str pi ti star = SegmentMatch_tail pat pi"
  by (subst SegmentMatch_while.simps) simp

lemma SegmentMatch_while_advance:
  "ti < length str \<Longrightarrow> pi < length pat \<and> (pat ! pi = CHR ''?'' \<or> pat ! pi = str ! ti) \<Longrightarrow>
   SegmentMatch_while pat str pi ti star = SegmentMatch_while pat str (pi + 1) (ti + 1) star"
  by (subst SegmentMatch_while.simps) simp

lemma SegmentMatch_while_star:
  "ti < length str \<Longrightarrow> \<not> (pi < length pat \<and> (pat ! pi = CHR ''?'' \<or> pat ! pi = str ! ti)) \<Longrightarrow>
   pi < length pat \<and> pat ! pi = CHR ''*'' \<Longrightarrow>
   SegmentMatch_while pat str pi ti star = SegmentMatch_while pat str (pi + 1) ti (Some (pi + 1, ti))"
  by (subst SegmentMatch_while.simps) simp

lemma SegmentMatch_while_fail:
  "ti < length str \<Longrightarrow> \<not> (pi < length pat \<and> (pat ! pi = CHR ''?'' \<or> pat ! pi = str ! ti)) \<Longrightarrow>
   \<not> (pi < length pat \<and> pat ! pi = CHR ''*'') \<Longrightarrow>
   SegmentMatch_while pat str pi ti None = False"
  by (subst SegmentMatch_while.simps) auto

lemma SegmentMatch_while_backtrack:
  "ti < length str \<Longrightarrow> \<not> (pi < length pat \<and> (pat ! pi = CHR ''?'' \<or> pat ! pi = str ! ti)) \<Longrightarrow>
   \<not> (pi < length pat \<and> pat ! pi = CHR ''*'') \<Longrightarrow>
   SegmentMatch_while pat str pi ti (Some (sp, st)) =
     SegmentMatch_while pat str sp (st + 1) (Some (sp, st + 1))"
  by (subst SegmentMatch_while.simps) auto

lemma SegmentMatch_while_eq:
  "CHR ''*'' \<notin> set str \<Longrightarrow> pi \<le> length pat \<Longrightarrow> ti \<le> length str \<Longrightarrow>
   star_inv pat str pi ti star \<Longrightarrow>
   SegmentMatch_while pat str pi ti star = star_goal pat str pi ti star"
proof (induction pat str pi ti star rule: SegmentMatch_while.induct)
  case (1 pat str pi ti star)
  note nostar = \<open>CHR ''*'' \<notin> set str\<close>
  note pi = \<open>pi \<le> length pat\<close>
  note ti = \<open>ti \<le> length str\<close>
  note inv = \<open>star_inv pat str pi ti star\<close>
  show ?case
  proof (cases "ti < length str")
    case False
    with ti have tend: "ti = length str" by simp
    have run: "SegmentMatch_while pat str pi ti star = segment_spec (drop pi pat) []"
      using False pi by (simp add: SegmentMatch_while_end SegmentMatch_tail_eq)
    show ?thesis
    proof (cases star)
      case None
      with run tend show ?thesis by (simp add: star_goal_def)
    next
      case (Some x)
      obtain sp st where x: "x = (sp, st)" by (cases x)
      note parts = star_inv_split [OF inv [unfolded Some x] pi ti]
      let ?q = "take (pi - sp) (drop sp pat)"
      let ?u = "take (ti - st) (drop st str)"
      have u: "drop st str = ?u" using parts(3) tend by simp
      have lq: "length ?q = length ?u" using parts(5) by (rule list_all2_lengthD)
      have qfree: "\<forall>p\<in>set ?q. p \<noteq> CHR ''*''"
        using parts(5) by (rule lit_star_free)
      have "segment_spec (CHR ''*'' # ?q @ drop pi pat) ?u \<longleftrightarrow> segment_spec (drop pi pat) []"
      proof
        assume "segment_spec (drop pi pat) []"
        then have "segment_spec (?q @ drop pi pat) (?u @ [])"
          using parts(5) by (simp only: spec_literal_prefix)
        then show "segment_spec (CHR ''*'' # ?q @ drop pi pat) ?u"
          by (simp add: spec_star_skip)
      next
        assume "segment_spec (CHR ''*'' # ?q @ drop pi pat) ?u"
        then obtain k where k: "k \<le> length ?u" "segment_spec (?q @ drop pi pat) (drop k ?u)"
          unfolding spec_star_iff by blast
        from spec_literal_prefixD [OF qfree k(2)]
        have len: "length ?q \<le> length (drop k ?u)"
          and rest: "segment_spec (drop pi pat) (drop (length ?q) (drop k ?u))" by simp_all
        from len have "length ?q \<le> length ?u - k" by (simp only: length_drop)
        with lq k(1) have "k = 0" by linarith
        with rest lq show "segment_spec (drop pi pat) []" by simp
      qed
      then have "segment_spec (drop (sp - 1) pat) (drop st str) = segment_spec (drop pi pat) []"
        using parts(1) parts(2) u by metis
      with run Some x show ?thesis by (simp add: star_goal_def)
    qed
  next
    case True
    then have dt: "drop ti str = str ! ti # drop (ti + 1) str" by (simp add: Cons_nth_drop_Suc)
    from True nostar have tns: "str ! ti \<noteq> CHR ''*''" by (metis nth_mem)
    show ?thesis
    proof (cases "pi < length pat \<and> (pat ! pi = CHR ''?'' \<or> pat ! pi = str ! ti)")
      case b1: True
      then have plt: "pi < length pat" by simp
      then have dp: "drop pi pat = pat ! pi # drop (pi + 1) pat" by (simp add: Cons_nth_drop_Suc)
      from b1 tns have l: "lit (pat ! pi) (str ! ti)" by (auto simp: lit_def)
      have run: "SegmentMatch_while pat str pi ti star = SegmentMatch_while pat str (pi + 1) (ti + 1) star"
        using True b1 by (rule SegmentMatch_while_advance)
      have inv': "star_inv pat str (pi + 1) (ti + 1) star"
      proof (cases star)
        case None
        then show ?thesis by (simp add: star_inv_def)
      next
        case (Some x)
        obtain sp st where x: "x = (sp, st)" by (cases x)
        from star_inv_step [OF inv [unfolded Some x] plt True l] Some x show ?thesis by simp
      qed
      from "1.IH"(1) [OF True b1 nostar _ _ inv'] plt True
      have IH: "SegmentMatch_while pat str (pi + 1) (ti + 1) star = star_goal pat str (pi + 1) (ti + 1) star"
        by simp
      have "star_goal pat str (pi + 1) (ti + 1) star = star_goal pat str pi ti star"
      proof (cases star)
        case None
        with l show ?thesis by (simp add: star_goal_def dp dt lit_def)
      next
        case (Some x)
        then show ?thesis by (simp add: star_goal_def split: prod.splits)
      qed
      with run IH show ?thesis by simp
    next
      case nb1: False
      show ?thesis
      proof (cases "pi < length pat \<and> pat ! pi = CHR ''*''")
        case b2: True
        then have plt: "pi < length pat" and pstar: "pat ! pi = CHR ''*''" by simp_all
        then have dp: "drop pi pat = CHR ''*'' # drop (pi + 1) pat"
          using Cons_nth_drop_Suc [of pi pat] by simp
        have run: "SegmentMatch_while pat str pi ti star =
            SegmentMatch_while pat str (pi + 1) ti (Some (pi + 1, ti))"
          using True nb1 b2 by (rule SegmentMatch_while_star)
        have inv': "star_inv pat str (pi + 1) ti (Some (pi + 1, ti))"
          using pstar by (simp add: star_inv_def)
        from "1.IH"(2) [OF True nb1 b2 nostar _ ti inv'] plt
        have IH: "SegmentMatch_while pat str (pi + 1) ti (Some (pi + 1, ti)) =
            segment_spec (drop pi pat) (drop ti str)"
          by (simp add: star_goal_def)
        have "star_goal pat str pi ti star = segment_spec (drop pi pat) (drop ti str)"
        proof (cases star)
          case None
          then show ?thesis by (simp add: star_goal_def)
        next
          case (Some x)
          obtain sp st where x: "x = (sp, st)" by (cases x)
          note parts = star_inv_split [OF inv [unfolded Some x] pi ti]
          let ?q = "take (pi - sp) (drop sp pat)"
          let ?u = "take (ti - st) (drop st str)"
          let ?R = "drop pi pat"
          let ?T = "drop ti str"
          have lq: "length ?q = length ?u" using parts(5) by (rule list_all2_lengthD)
          have qfree: "\<forall>p\<in>set ?q. p \<noteq> CHR ''*''"
            using parts(5) by (rule lit_star_free)
          have "segment_spec (CHR ''*'' # ?q @ ?R) (?u @ ?T) \<longleftrightarrow> segment_spec ?R ?T"
          proof
            assume "segment_spec ?R ?T"
            then have "segment_spec (?q @ ?R) (?u @ ?T)"
              using parts(5) by (simp only: spec_literal_prefix)
            then show "segment_spec (CHR ''*'' # ?q @ ?R) (?u @ ?T)"
              by (rule spec_star_skip)
          next
            assume "segment_spec (CHR ''*'' # ?q @ ?R) (?u @ ?T)"
            then obtain k where k: "k \<le> length (?u @ ?T)"
              "segment_spec (?q @ ?R) (drop k (?u @ ?T))"
              unfolding spec_star_iff by blast
            from spec_literal_prefixD [OF qfree k(2)]
            have rest: "segment_spec ?R (drop (length ?q) (drop k (?u @ ?T)))" by simp
            have "drop (length ?q) (drop k (?u @ ?T)) = drop k ?T"
              using lq by (rule drop_past_prefix)
            with rest have "segment_spec ?R (drop k ?T)" by simp
            then have "segment_spec ?R (take k ?T @ drop k ?T)"
              unfolding dp by (rule spec_star_absorb)
            then show "segment_spec ?R ?T" by (simp only: append_take_drop_id)
          qed
          then have "segment_spec (drop (sp - 1) pat) (drop st str) = segment_spec ?R ?T"
            using parts(1) parts(2) parts(3) by metis
          with Some x show ?thesis by (simp add: star_goal_def)
        qed
        with run IH show ?thesis by simp
      next
        case nb2: False
        have stuck: "\<not> segment_spec (drop pi pat) (drop ti str)"
        proof (cases "pi < length pat")
          case True
          then have dp: "drop pi pat = pat ! pi # drop (pi + 1) pat" by (simp add: Cons_nth_drop_Suc)
          from True nb1 nb2 show ?thesis by (simp add: dp dt)
        next
          case False
          with pi show ?thesis by (simp add: dt)
        qed
        show ?thesis
        proof (cases star)
          case None
          have "SegmentMatch_while pat str pi ti star = False"
            unfolding None using True nb1 nb2 by (rule SegmentMatch_while_fail)
          with stuck None show ?thesis by (simp add: star_goal_def)
        next
          case (Some x)
          obtain sp st where x: "x = (sp, st)" by (cases x)
          note parts = star_inv_split [OF inv [unfolded Some x] pi ti]
          let ?q = "take (pi - sp) (drop sp pat)"
          let ?u = "take (ti - st) (drop st str)"
          from inv Some x have sp: "1 \<le> sp" "sp \<le> pi" and st: "st \<le> ti"
            and pstar: "pat ! (sp - 1) = CHR ''*''"
            by (simp_all add: star_inv_def)
          from st True have stlt: "st < length str" by simp
          then have dst: "drop st str = str ! st # drop (st + 1) str"
            by (simp add: Cons_nth_drop_Suc)
          have run: "SegmentMatch_while pat str pi ti star =
              SegmentMatch_while pat str sp (st + 1) (Some (sp, st + 1))"
            unfolding Some x using True nb1 nb2 by (rule SegmentMatch_while_backtrack)
          have inv': "star_inv pat str sp (st + 1) (Some (sp, st + 1))"
            using sp pstar by (simp add: star_inv_def)
          from sp pi have spl: "sp \<le> length pat" by simp
          from stlt have stl: "st + 1 \<le> length str" by simp
          from "1.IH"(3) [OF True nb1 nb2 Some x [symmetric] nostar spl stl inv']
          have IH: "SegmentMatch_while pat str sp (st + 1) (Some (sp, st + 1)) =
              segment_spec (drop (sp - 1) pat) (drop (st + 1) str)"
            by (simp add: star_goal_def)
          have "\<not> segment_spec (?q @ drop pi pat) (?u @ drop ti str)"
            using stuck spec_literal_prefix [OF parts(5), of "drop pi pat" "drop ti str"] by blast
          then have no: "\<not> segment_spec (drop sp pat) (drop st str)"
            using parts(2) parts(3) by metis
          from no have no': "\<not> segment_spec (drop sp pat) (str ! st # drop (st + 1) str)"
            using dst by metis
          have "segment_spec (CHR ''*'' # drop sp pat) (str ! st # drop (st + 1) str) =
                segment_spec (CHR ''*'' # drop sp pat) (drop (st + 1) str)"
            using no' spec_star_Cons [of "drop sp pat" "str ! st" "drop (st + 1) str"] by blast
          then have "segment_spec (drop (sp - 1) pat) (drop st str) =
                segment_spec (drop (sp - 1) pat) (drop (st + 1) str)"
            using parts(1) dst by metis
          with run IH Some x show ?thesis by (simp add: star_goal_def)
        qed
      qed
    qed
  qed
qed

lemma SegmentMatch_eq_spec:
  "CHR ''*'' \<notin> set str \<Longrightarrow> SegmentMatch pat str = segment_spec pat str"
  using SegmentMatch_while_eq [of str 0 pat 0 None]
  by (simp add: SegmentMatch_def star_inv_def star_goal_def)

subsection \<open>Splitting at the delimiter\<close>

lemma Split_for_no_delim:
  "delim \<notin> set s \<Longrightarrow> Split_for s delim out cur = out @ [cur @ s]"
  by (induction s arbitrary: cur) auto

lemma Split_for_length: "length out < length (Split_for s delim out cur)"
proof (induction s arbitrary: out cur)
  case Nil
  show ?case by simp
next
  case (Cons c s)
  show ?case
  proof (cases "c = delim")
    case True
    have "length (out @ [cur]) < length (Split_for s delim (out @ [cur]) [])" by (rule Cons)
    with True show ?thesis by simp
  next
    case False
    with Cons [of out "cur @ [c]"] show ?thesis by simp
  qed
qed

lemma Split_for_delim_length:
  "delim \<in> set s \<Longrightarrow> length out + 2 \<le> length (Split_for s delim out cur)"
proof (induction s arbitrary: out cur)
  case Nil
  then show ?case by simp
next
  case (Cons c s)
  show ?case
  proof (cases "c = delim")
    case True
    have "length (out @ [cur]) < length (Split_for s delim (out @ [cur]) [])"
      by (rule Split_for_length)
    with True show ?thesis by simp
  next
    case False
    with Cons.prems have "delim \<in> set s" by simp
    from Cons.IH [OF this, of out "cur @ [c]"] False show ?thesis by simp
  qed
qed

lemma Split_for_tokens:
  "\<forall>t\<in>set out. delim \<notin> set t \<Longrightarrow> delim \<notin> set cur \<Longrightarrow>
   \<forall>t\<in>set (Split_for s delim out cur). delim \<notin> set t"
proof (induction s arbitrary: out cur)
  case Nil
  then show ?case by simp
next
  case (Cons c s)
  show ?case
  proof (cases "c = delim")
    case True
    from Cons.prems have "\<forall>t\<in>set (out @ [cur]). delim \<notin> set t" by simp
    from Cons.IH [OF this, of "[]"] True show ?thesis by simp
  next
    case False
    with Cons.prems have "delim \<notin> set (cur @ [c])" by simp
    from Cons.IH [OF Cons.prems(1) this] False show ?thesis by simp
  qed
qed

lemma Split_no_delim: "delim \<notin> set s \<Longrightarrow> Split s delim = [s]"
  by (simp add: Split_def Split_for_no_delim)

lemma Split_delim_length: "delim \<in> set s \<Longrightarrow> 2 \<le> length (Split s delim)"
  using Split_for_delim_length [of delim s "[]" "[]"] by (simp add: Split_def)

lemma Split_tokens: "\<forall>t\<in>set (Split s delim). delim \<notin> set t"
  unfolding Split_def by (rule Split_for_tokens) simp_all

lemma TokensMatch_single:
  assumes "pat \<noteq> ''**''" and "stokens \<noteq> []"
  shows "TokensMatch [pat] stokens 0 0 = Some (SegmentMatch pat (stokens ! 0) \<and> length stokens = 1)"
proof -
  from assms(2) have len: "0 < length stokens" by simp
  have "TokensMatch [pat] stokens 0 0 =
      (if \<not> SegmentMatch pat (stokens ! 0) then Some False else TokensMatch [pat] stokens (0 + 1) (0 + 1))"
    using assms len by (subst TokensMatch_step) auto
  moreover have "TokensMatch [pat] stokens (0 + 1) (0 + 1) = Some (1 = length stokens)"
    using TokensMatch_end [of "[pat]" stokens 1] by simp
  ultimately show ?thesis by auto
qed

lemma WildMatchPath_single:
  "(CHR ''/'' \<notin> set pat \<and> pat \<noteq> ''**'' \<longrightarrow>
      WildMatchPath pat path = Some (CHR ''/'' \<notin> set path \<and> SegmentMatch pat path))
   \<and> (\<forall>t\<in>set (Split path CHR ''/''). CHR ''/'' \<notin> set t)"
proof -
  have a: "CHR ''/'' \<notin> set pat \<and> pat \<noteq> ''**'' \<longrightarrow>
      WildMatchPath pat path = Some (CHR ''/'' \<notin> set path \<and> SegmentMatch pat path)"
  proof (intro impI, elim conjE)
    assume pat: "CHR ''/'' \<notin> set pat" "pat \<noteq> ''**''"
    then have pt: "Split pat CHR ''/'' = [pat]" by (simp add: Split_no_delim)
    have ne: "Split path CHR ''/'' \<noteq> []"
      using Split_for_length [of "[]" path "CHR ''/''" "[]"] by (auto simp: Split_def)
    have run: "WildMatchPath pat path =
        Some (SegmentMatch pat (Split path CHR ''/'' ! 0) \<and> length (Split path CHR ''/'') = 1)"
      unfolding WildMatchPath_def Let_def pt using pat(2) ne by (rule TokensMatch_single)
    show "WildMatchPath pat path = Some (CHR ''/'' \<notin> set path \<and> SegmentMatch pat path)"
    proof (cases "CHR ''/'' \<in> set path")
      case True
      then have "2 \<le> length (Split path CHR ''/'')" by (rule Split_delim_length)
      with run True show ?thesis by simp
    next
      case False
      then have "Split path CHR ''/'' = [path]" by (rule Split_no_delim)
      with run False show ?thesis by simp
    qed
  qed
  show ?thesis by (rule conjI [OF a Split_tokens])
qed

lemma SegmentMatch_Nil: "SegmentMatch [] str = (str = [])"
proof (cases str)
  case Nil
  then show ?thesis
    by (simp add: SegmentMatch_def SegmentMatch_while_end SegmentMatch_tail.simps [of "[]" 0])
next
  case (Cons c cs)
  then have "SegmentMatch_while [] str 0 0 None = False"
    by (intro SegmentMatch_while_fail) simp_all
  with Cons show ?thesis by (simp add: SegmentMatch_def)
qed


lemma GitWildMatch_a_star_b:
  assumes "pattern p = ''a*b''"
  shows "GitWildMatch p ''a/b'' is_dir = Some False"
proof -
  have cp: "cmp_path p ''a/b'' = ''a/b''" by (simp add: cmp_path_def EndsWith_def)
  have whole: "WildMatchPath ''a*b'' ''a/b'' = Some False" by code_simp
  have tail: "WildMatchPath ''a*b'' ''b'' = Some False" by code_simp
  have suffix: "\<not> (\<exists>j. j < length ''a/b'' \<and> ''a/b'' ! j = CHR ''/'' \<and> j + 1 < length ''a/b'' \<and>
                    WildMatchPath ''a*b'' (drop (j + 1) ''a/b'') = Some True)"
  proof
    assume "\<exists>j. j < length ''a/b'' \<and> ''a/b'' ! j = CHR ''/'' \<and> j + 1 < length ''a/b'' \<and>
                    WildMatchPath ''a*b'' (drop (j + 1) ''a/b'') = Some True"
    then obtain j where j: "j < length ''a/b''" "''a/b'' ! j = CHR ''/''"
      "WildMatchPath ''a*b'' (drop (j + 1) ''a/b'') = Some True" by blast
    from j(1) have "j = 0 \<or> j = 1 \<or> j = 2" by auto
    with j(2) have "j = 1" by auto
    with j(3) tail show False by simp
  qed
  show ?thesis
    unfolding GitWildMatch_eq cp assms using whole suffix by simp
qed

section \<open>The claims\<close>

text \<open>
  Claim C1. \<open>IsIgnored\<close> walks the rules in stored order and returns the negation status
  of the last rule that \<open>GitWildMatch\<close> matches: the result is \<open>\<not> negated\<close> of the last
  matching rule, and \<open>False\<close> when no rule matches. The rules file with the lines \<^verbatim>\<open>a\<close>,
  \<^verbatim>\<open>!a\<close> leaves the path \<^verbatim>\<open>a\<close> not ignored; with the lines \<^verbatim>\<open>!a\<close>, \<^verbatim>\<open>a\<close> the path
  \<^verbatim>\<open>a\<close> is ignored (as a file and as a directory).
\<close>
theorem IsIgnored_last_match_wins:
  "IsIgnored patterns rel_posix is_dir =
     Some (case filter (\<lambda>p. GitWildMatch p rel_posix is_dir = Some True) patterns of
             [] \<Rightarrow> False
           | ms \<Rightarrow> \<not> negated (last ms))
   \<and> LoadGitignoreSpec (Some (''a'' @ newline # ''!a'')) \<bind> (\<lambda>rules. IsIgnored rules ''a'' False) = Some False
   \<and> LoadGitignoreSpec (Some (''a'' @ newline # ''!a'')) \<bind> (\<lambda>rules. IsIgnored rules ''a'' True) = Some False
   \<and> LoadGitignoreSpec (Some (''!a'' @ newline # ''a'')) \<bind> (\<lambda>rules. IsIgnored rules ''a'' False) = Some True
   \<and> LoadGitignoreSpec (Some (''!a'' @ newline # ''a'')) \<bind> (\<lambda>rules. IsIgnored rules ''a'' True) = Some True"
proof -
  have general: "IsIgnored patterns rel_posix is_dir =
     Some (case filter (\<lambda>p. GitWildMatch p rel_posix is_dir = Some True) patterns of
             [] \<Rightarrow> False
           | ms \<Rightarrow> \<not> negated (last ms))"
    unfolding IsIgnored_def by (rule IsIgnored_for_eq)
  have e1: "LoadGitignoreSpec (Some (''a'' @ newline # ''!a'')) \<bind> (\<lambda>rules. IsIgnored rules ''a'' False) = Some False"
    by code_simp
  have e2: "LoadGitignoreSpec (Some (''a'' @ newline # ''!a'')) \<bind> (\<lambda>rules. IsIgnored rules ''a'' True) = Some False"
    by code_simp
  have e3: "LoadGitignoreSpec (Some (''!a'' @ newline # ''a'')) \<bind> (\<lambda>rules. IsIgnored rules ''a'' False) = Some True"
    by code_simp
  have e4: "LoadGitignoreSpec (Some (''!a'' @ newline # ''a'')) \<bind> (\<lambda>rules. IsIgnored rules ''a'' True) = Some True"
    by code_simp
  show ?thesis by (rule conjI [OF general conjI [OF e1 conjI [OF e2 conjI [OF e3 e4]]]])
qed

theorem IsIgnored_last_match_wins_witness:
  "filter (\<lambda>p. GitWildMatch p ''a'' False = Some True)
     [\<lparr>pattern = ''a'', negated = False, dir_only = False, anchored = False\<rparr>,
      \<lparr>pattern = ''b'', negated = False, dir_only = False, anchored = False\<rparr>,
      \<lparr>pattern = ''a'', negated = True, dir_only = False, anchored = False\<rparr>] =
     [\<lparr>pattern = ''a'', negated = False, dir_only = False, anchored = False\<rparr>,
      \<lparr>pattern = ''a'', negated = True, dir_only = False, anchored = False\<rparr>]
   \<and> IsIgnored
     [\<lparr>pattern = ''a'', negated = False, dir_only = False, anchored = False\<rparr>,
      \<lparr>pattern = ''b'', negated = False, dir_only = False, anchored = False\<rparr>,
      \<lparr>pattern = ''a'', negated = True, dir_only = False, anchored = False\<rparr>] ''a'' False = Some False"
proof -
  let ?A = "\<lparr>pattern = ''a'', negated = False, dir_only = False, anchored = False\<rparr>"
  let ?B = "\<lparr>pattern = ''b'', negated = False, dir_only = False, anchored = False\<rparr>"
  let ?N = "\<lparr>pattern = ''a'', negated = True, dir_only = False, anchored = False\<rparr>"
  have a: "GitWildMatch ?A ''a'' False = Some True" by code_simp
  have b: "GitWildMatch ?B ''a'' False = Some False" by code_simp
  have n: "GitWildMatch ?N ''a'' False = Some True" by code_simp
  have f: "filter (\<lambda>p. GitWildMatch p ''a'' False = Some True) [?A, ?B, ?N] = [?A, ?N]"
    by (simp add: a b n)
  from IsIgnored_last_match_wins [of "[?A, ?B, ?N]" "''a''" False, THEN conjunct1]
  have "IsIgnored [?A, ?B, ?N] ''a'' False = Some False"
    unfolding f by simp
  with f show ?thesis by (rule conjI)
qed

text \<open>
  Claim C2. At a \<^verbatim>\<open>"**"\<close> pattern token \<open>TokensMatch\<close> succeeds iff the rest of the pattern
  matches the path tokens from some index \<open>k\<close> with \<open>si \<le> k \<le> length stokens\<close>: the token
  absorbs zero or more whole segments. The pattern \<^verbatim>\<open>a/**/b\<close> matches the paths \<^verbatim>\<open>a/b\<close>,
  \<^verbatim>\<open>a/x/b\<close> and \<^verbatim>\<open>a/x/y/b\<close>, and the rule compiled from it makes them ignored.
\<close>
theorem TokensMatch_double_star:
  "(pi < length ptokens \<and> ptokens ! pi = ''**'' \<longrightarrow>
      TokensMatch ptokens stokens pi si =
        Some (\<exists>k. si \<le> k \<and> k \<le> length stokens \<and> TokensMatch ptokens stokens (pi + 1) k = Some True))
   \<and> WildMatchPath ''a/**/b'' ''a/b'' = Some True
   \<and> WildMatchPath ''a/**/b'' ''a/x/b'' = Some True
   \<and> WildMatchPath ''a/**/b'' ''a/x/y/b'' = Some True
   \<and> LoadGitignoreSpec (Some ''a/**/b'') \<bind> (\<lambda>rules. IsIgnored rules ''a/b'' False) = Some True
   \<and> LoadGitignoreSpec (Some ''a/**/b'') \<bind> (\<lambda>rules. IsIgnored rules ''a/x/b'' False) = Some True
   \<and> LoadGitignoreSpec (Some ''a/**/b'') \<bind> (\<lambda>rules. IsIgnored rules ''a/x/y/b'' False) = Some True"
proof -
  have general: "pi < length ptokens \<and> ptokens ! pi = ''**'' \<longrightarrow>
      TokensMatch ptokens stokens pi si =
        Some (\<exists>k. si \<le> k \<and> k \<le> length stokens \<and> TokensMatch ptokens stokens (pi + 1) k = Some True)"
  proof (intro impI, elim conjE)
    assume lt: "pi < length ptokens" and star: "ptokens ! pi = ''**''"
    then have "TokensMatch ptokens stokens pi si = TokensMatch_for ptokens stokens pi si"
      by (simp add: TokensMatch_step)
    also have "\<dots> = Some (\<exists>k. si \<le> k \<and> k \<le> length stokens \<and> TokensMatch ptokens stokens (pi + 1) k = Some True)"
      using lt by (rule TokensMatch_for_eq)
    finally show "TokensMatch ptokens stokens pi si =
        Some (\<exists>k. si \<le> k \<and> k \<le> length stokens \<and> TokensMatch ptokens stokens (pi + 1) k = Some True)" .
  qed
  have e1: "WildMatchPath ''a/**/b'' ''a/b'' = Some True" by code_simp
  have e2: "WildMatchPath ''a/**/b'' ''a/x/b'' = Some True" by code_simp
  have e3: "WildMatchPath ''a/**/b'' ''a/x/y/b'' = Some True" by code_simp
  have e4: "LoadGitignoreSpec (Some ''a/**/b'') \<bind> (\<lambda>rules. IsIgnored rules ''a/b'' False) = Some True"
    by code_simp
  have e5: "LoadGitignoreSpec (Some ''a/**/b'') \<bind> (\<lambda>rules. IsIgnored rules ''a/x/b'' False) = Some True"
    by code_simp
  have e6: "LoadGitignoreSpec (Some ''a/**/b'') \<bind> (\<lambda>rules. IsIgnored rules ''a/x/y/b'' False) = Some True"
    by code_simp
  show ?thesis
    by (rule conjI [OF general conjI [OF e1 conjI [OF e2 conjI [OF e3 conjI [OF e4 conjI [OF e5 e6]]]]]])
qed

theorem TokensMatch_double_star_witness:
  "((1::nat) < length [''a'', ''**'', ''b''] \<and> [''a'', ''**'', ''b''] ! 1 = ''**'')
   \<and> TokensMatch [''a'', ''**'', ''b''] [''a'', ''x'', ''b''] 1 1 =
       Some (\<exists>k. 1 \<le> k \<and> k \<le> length [''a'', ''x'', ''b''] \<and>
                 TokensMatch [''a'', ''**'', ''b''] [''a'', ''x'', ''b''] (1 + 1) k = Some True)
   \<and> TokensMatch [''a'', ''**'', ''b''] [''a'', ''x'', ''b''] 1 1 = Some True"
proof -
  have hyp: "(1::nat) < length [''a'', ''**'', ''b''] \<and> [''a'', ''**'', ''b''] ! 1 = ''**''"
    by simp
  have val: "TokensMatch [''a'', ''**'', ''b''] [''a'', ''x'', ''b''] 1 1 = Some True"
    by code_simp
  from TokensMatch_double_star [of 1 "[''a'', ''**'', ''b'']" "[''a'', ''x'', ''b'']" 1,
      THEN conjunct1, THEN mp, OF hyp]
  have inst: "TokensMatch [''a'', ''**'', ''b''] [''a'', ''x'', ''b''] 1 1 =
       Some (\<exists>k. 1 \<le> k \<and> k \<le> length [''a'', ''x'', ''b''] \<and>
                 TokensMatch [''a'', ''**'', ''b''] [''a'', ''x'', ''b''] (1 + 1) k = Some True)" .
  show ?thesis by (rule conjI [OF hyp conjI [OF inst val]])
qed

text \<open>
  Claim C3. An anchored rule that is not stopped by the directory-only test matches exactly
  when \<open>WildMatchPath\<close> matches the whole comparison path. An unanchored rule matches when
  the whole comparison path matches or when the part of it that starts at a character just
  after some \<^verbatim>\<open>/\<close> does (\<open>j + 1 < length\<close>, the loop's own test). The rule compiled from
  \<^verbatim>\<open>/build\<close> makes \<^verbatim>\<open>build\<close> ignored and \<^verbatim>\<open>src/build\<close> not; the rule compiled from
  \<^verbatim>\<open>build\<close> makes both ignored.
\<close>
theorem GitWildMatch_anchoring:
  "(anchored p \<longrightarrow>
      GitWildMatch p rel_path is_dir =
        (if dir_only p \<and> \<not> is_dir then Some False
         else WildMatchPath (pattern p) (cmp_path p rel_path)))
   \<and> (\<not> anchored p \<longrightarrow>
      GitWildMatch p rel_path is_dir =
        Some (\<not> (dir_only p \<and> \<not> is_dir) \<and>
              (WildMatchPath (pattern p) (cmp_path p rel_path) = Some True \<or>
               (\<exists>j. j < length (cmp_path p rel_path) \<and> cmp_path p rel_path ! j = CHR ''/'' \<and>
                    j + 1 < length (cmp_path p rel_path) \<and>
                    WildMatchPath (pattern p) (drop (j + 1) (cmp_path p rel_path)) = Some True))))
   \<and> LoadGitignoreSpec (Some ''/build'') =
       Some [\<lparr>pattern = ''build'', negated = False, dir_only = False, anchored = True\<rparr>]
   \<and> LoadGitignoreSpec (Some ''build'') =
       Some [\<lparr>pattern = ''build'', negated = False, dir_only = False, anchored = False\<rparr>]
   \<and> LoadGitignoreSpec (Some ''/build'') \<bind> (\<lambda>rules. IsIgnored rules ''build'' is_dir) = Some True
   \<and> LoadGitignoreSpec (Some ''/build'') \<bind> (\<lambda>rules. IsIgnored rules ''src/build'' is_dir) = Some False
   \<and> LoadGitignoreSpec (Some ''build'') \<bind> (\<lambda>rules. IsIgnored rules ''build'' is_dir) = Some True
   \<and> LoadGitignoreSpec (Some ''build'') \<bind> (\<lambda>rules. IsIgnored rules ''src/build'' is_dir) = Some True"
proof -
  have anch: "anchored p \<longrightarrow>
      GitWildMatch p rel_path is_dir =
        (if dir_only p \<and> \<not> is_dir then Some False
         else WildMatchPath (pattern p) (cmp_path p rel_path))"
    by (simp add: GitWildMatch_eq)
  have unanch: "\<not> anchored p \<longrightarrow>
      GitWildMatch p rel_path is_dir =
        Some (\<not> (dir_only p \<and> \<not> is_dir) \<and>
              (WildMatchPath (pattern p) (cmp_path p rel_path) = Some True \<or>
               (\<exists>j. j < length (cmp_path p rel_path) \<and> cmp_path p rel_path ! j = CHR ''/'' \<and>
                    j + 1 < length (cmp_path p rel_path) \<and>
                    WildMatchPath (pattern p) (drop (j + 1) (cmp_path p rel_path)) = Some True)))"
    by (simp add: GitWildMatch_eq)
  have r1: "LoadGitignoreSpec (Some ''/build'') =
       Some [\<lparr>pattern = ''build'', negated = False, dir_only = False, anchored = True\<rparr>]"
    by code_simp
  have r2: "LoadGitignoreSpec (Some ''build'') =
       Some [\<lparr>pattern = ''build'', negated = False, dir_only = False, anchored = False\<rparr>]"
    by code_simp
  have e1T: "LoadGitignoreSpec (Some ''/build'') \<bind> (\<lambda>rules. IsIgnored rules ''build'' True) = Some True"
    by code_simp
  have e1F: "LoadGitignoreSpec (Some ''/build'') \<bind> (\<lambda>rules. IsIgnored rules ''build'' False) = Some True"
    by code_simp
  have e1: "LoadGitignoreSpec (Some ''/build'') \<bind> (\<lambda>rules. IsIgnored rules ''build'' is_dir) = Some True"
    using e1T e1F by (cases is_dir) simp_all
  have e2T: "LoadGitignoreSpec (Some ''/build'') \<bind> (\<lambda>rules. IsIgnored rules ''src/build'' True) = Some False"
    by code_simp
  have e2F: "LoadGitignoreSpec (Some ''/build'') \<bind> (\<lambda>rules. IsIgnored rules ''src/build'' False) = Some False"
    by code_simp
  have e2: "LoadGitignoreSpec (Some ''/build'') \<bind> (\<lambda>rules. IsIgnored rules ''src/build'' is_dir) = Some False"
    using e2T e2F by (cases is_dir) simp_all
  have e3T: "LoadGitignoreSpec (Some ''build'') \<bind> (\<lambda>rules. IsIgnored rules ''build'' True) = Some True"
    by code_simp
  have e3F: "LoadGitignoreSpec (Some ''build'') \<bind> (\<lambda>rules. IsIgnored rules ''build'' False) = Some True"
    by code_simp
  have e3: "LoadGitignoreSpec (Some ''build'') \<bind> (\<lambda>rules. IsIgnored rules ''build'' is_dir) = Some True"
    using e3T e3F by (cases is_dir) simp_all
  have e4T: "LoadGitignoreSpec (Some ''build'') \<bind> (\<lambda>rules. IsIgnored rules ''src/build'' True) = Some True"
    by code_simp
  have e4F: "LoadGitignoreSpec (Some ''build'') \<bind> (\<lambda>rules. IsIgnored rules ''src/build'' False) = Some True"
    by code_simp
  have e4: "LoadGitignoreSpec (Some ''build'') \<bind> (\<lambda>rules. IsIgnored rules ''src/build'' is_dir) = Some True"
    using e4T e4F by (cases is_dir) simp_all
  show ?thesis
    by (rule conjI [OF anch conjI [OF unanch conjI [OF r1 conjI [OF r2
          conjI [OF e1 conjI [OF e2 conjI [OF e3 e4]]]]]]])
qed


theorem GitWildMatch_anchoring_witness:
  "anchored \<lparr>pattern = ''build'', negated = False, dir_only = False, anchored = True\<rparr>
   \<and> GitWildMatch \<lparr>pattern = ''build'', negated = False, dir_only = False, anchored = True\<rparr>
         ''src/build'' False = Some False
   \<and> \<not> anchored \<lparr>pattern = ''build'', negated = False, dir_only = False, anchored = False\<rparr>
   \<and> GitWildMatch \<lparr>pattern = ''build'', negated = False, dir_only = False, anchored = False\<rparr>
         ''src/build'' False = Some True"
proof -
  let ?A = "\<lparr>pattern = ''build'', negated = False, dir_only = False, anchored = True\<rparr>"
  let ?U = "\<lparr>pattern = ''build'', negated = False, dir_only = False, anchored = False\<rparr>"
  have hA: "anchored ?A" by simp
  have hU: "\<not> anchored ?U" by simp
  have vA: "(if dir_only ?A \<and> \<not> False then Some False
             else WildMatchPath (pattern ?A) (cmp_path ?A ''src/build'')) = Some False"
    by code_simp
  have vU: "GitWildMatch ?U ''src/build'' False = Some True"
    by code_simp
  from GitWildMatch_anchoring [of ?A "''src/build''" False, THEN conjunct1, THEN mp, OF hA]
  have a: "GitWildMatch ?A ''src/build'' False = Some False"
    by (simp only: vA)
  from GitWildMatch_anchoring [of ?U "''src/build''" False, THEN conjunct2, THEN conjunct1, THEN mp, OF hU]
  have u: "GitWildMatch ?U ''src/build'' False = Some True"
    by (simp only: vU)
  show ?thesis by (rule conjI [OF hA conjI [OF a conjI [OF hU u]]])
qed

text \<open>
  Claim C4, at the input where the source departs from it. The claim reads \<^verbatim>\<open>*\<close> as any
  run of characters, so the pattern \<^verbatim>\<open>*\<close> matches the segment \<^verbatim>\<open>*a\<close> (as \<open>segment_spec\<close>
  has it). \<open>SegmentMatch\<close> tests \<^verbatim>\<open>pat[pi] == text[ti]\<close> before it tests
  \<^verbatim>\<open>pat[pi] == '*'\<close>: a \<^verbatim>\<open>*\<close> in the text consumes the pattern's \<^verbatim>\<open>*\<close> as a literal, no star
  position is recorded, and the match fails at the next character. The rules file \<^verbatim>\<open>*\<close>
  therefore leaves a file named \<^verbatim>\<open>*a\<close> not ignored. The other parts of the claim hold and
  are proved after the claims: the empty pattern, the \<^verbatim>\<open>/\<close> boundary with both examples,
  and the agreement of \<open>SegmentMatch\<close> with \<open>segment_spec\<close> on every text without a \<^verbatim>\<open>*\<close>.
\<close>
theorem SegmentMatch_star_in_text:
  "SegmentMatch ''*'' ''*a'' = False
   \<and> segment_spec ''*'' ''*a'' = True
   \<and> LoadGitignoreSpec (Some ''*'') \<bind> (\<lambda>rules. IsIgnored rules ''*a'' False) = Some False"
proof -
  have a: "SegmentMatch ''*'' ''*a'' = False" by code_simp
  have s: "segment_spec ''*'' ''*a'' = True" by code_simp
  have b: "LoadGitignoreSpec (Some ''*'') \<bind> (\<lambda>rules. IsIgnored rules ''*a'' False) = Some False"
    by code_simp
  show ?thesis by (rule conjI [OF a conjI [OF s b]])
qed

text \<open>
  Claim C5. A rule with \<open>dir_only\<close> set never matches when \<open>is_dir\<close> is false, whatever the
  path. The rule compiled from \<^verbatim>\<open>logs/\<close> makes a directory \<^verbatim>\<open>logs\<close> ignored and leaves a
  regular file \<^verbatim>\<open>logs\<close> not ignored.
\<close>
theorem GitWildMatch_dir_only:
  "(dir_only p \<longrightarrow> GitWildMatch p rel_path False = Some False)
   \<and> LoadGitignoreSpec (Some ''logs/'') =
       Some [\<lparr>pattern = ''logs'', negated = False, dir_only = True, anchored = False\<rparr>]
   \<and> LoadGitignoreSpec (Some ''logs/'') \<bind> (\<lambda>rules. IsIgnored rules ''logs'' True) = Some True
   \<and> LoadGitignoreSpec (Some ''logs/'') \<bind> (\<lambda>rules. IsIgnored rules ''logs'' False) = Some False"
proof -
  have general: "dir_only p \<longrightarrow> GitWildMatch p rel_path False = Some False"
    by (simp add: GitWildMatch_def)
  have r: "LoadGitignoreSpec (Some ''logs/'') =
       Some [\<lparr>pattern = ''logs'', negated = False, dir_only = True, anchored = False\<rparr>]"
    by code_simp
  have e1: "LoadGitignoreSpec (Some ''logs/'') \<bind> (\<lambda>rules. IsIgnored rules ''logs'' True) = Some True"
    by code_simp
  have e2: "LoadGitignoreSpec (Some ''logs/'') \<bind> (\<lambda>rules. IsIgnored rules ''logs'' False) = Some False"
    by code_simp
  show ?thesis by (rule conjI [OF general conjI [OF r conjI [OF e1 e2]]])
qed

theorem GitWildMatch_dir_only_witness:
  "dir_only \<lparr>pattern = ''logs'', negated = False, dir_only = True, anchored = False\<rparr>
   \<and> GitWildMatch \<lparr>pattern = ''logs'', negated = False, dir_only = True, anchored = False\<rparr>
         ''logs'' False = Some False"
proof -
  let ?L = "\<lparr>pattern = ''logs'', negated = False, dir_only = True, anchored = False\<rparr>"
  have h: "dir_only ?L" by simp
  from GitWildMatch_dir_only [of ?L "''logs''", THEN conjunct1, THEN mp, OF h]
  have "GitWildMatch ?L ''logs'' False = Some False" .
  with h show ?thesis by (rule conjI)
qed

text \<open>
  Claim C6, at the input where the source departs from it. The claim has a line of slashes
  discarded. The source tests for an empty line after trimming and after removing \<^verbatim>\<open>!\<close>,
  but not after removing the slashes: the lines \<^verbatim>\<open>/\<close> and \<^verbatim>\<open>//\<close> are each stored as a rule
  with the empty pattern.
\<close>
theorem LoadGitignoreSpec_slash_only:
  "LoadGitignoreSpec (Some ''/'') =
     Some [\<lparr>pattern = [], negated = False, dir_only = True, anchored = False\<rparr>]
   \<and> LoadGitignoreSpec (Some ''//'') =
     Some [\<lparr>pattern = [], negated = False, dir_only = True, anchored = True\<rparr>]"
proof -
  have a: "LoadGitignoreSpec (Some ''/'') =
     Some [\<lparr>pattern = [], negated = False, dir_only = True, anchored = False\<rparr>]"
    by code_simp
  have b: "LoadGitignoreSpec (Some ''//'') =
     Some [\<lparr>pattern = [], negated = False, dir_only = True, anchored = True\<rparr>]"
    by code_simp
  show ?thesis by (rule conjI [OF a b])
qed

text \<open>
  Claim C7. Compilation returns a rule list for every content of the rules file (and for a
  missing file): no step of it leaves defined behaviour. A line of whitespace only (empty
  after trimming), a line whose first character after the leading whitespace is \<^verbatim>\<open>#\<close>, and
  a line that is \<^verbatim>\<open>!\<close> with only whitespace around it each leave the rule list as it was:
  the loop body returns \<open>res\<close> unchanged, and the compilation of the lines with such a line
  among them equals that of the lines without it.
\<close>
theorem LoadGitignoreSpec_total_and_skips:
  "(\<exists>rules. LoadGitignoreSpec gitignore = Some rules)
   \<and> ((\<forall>c\<in>set line. is_space c)
        \<or> (\<exists>ws rest. line = ws @ CHR ''#'' # rest \<and> (\<forall>c\<in>set ws. is_space c))
        \<or> (\<exists>ws1 ws2. line = ws1 @ CHR ''!'' # ws2 \<and> (\<forall>c\<in>set ws1. is_space c) \<and>
              (\<forall>c\<in>set ws2. is_space c))
      \<longrightarrow> LoadGitignoreSpec_line res line = Some res
          \<and> LoadGitignoreSpec_while (before @ line # after) res0 =
              LoadGitignoreSpec_while (before @ after) res0)"
proof -
  have total: "\<exists>rules. LoadGitignoreSpec gitignore = Some rules"
    using LoadGitignoreSpec_Some [of gitignore] by blast
  have skips: "(\<forall>c\<in>set line. is_space c)
        \<or> (\<exists>ws rest. line = ws @ CHR ''#'' # rest \<and> (\<forall>c\<in>set ws. is_space c))
        \<or> (\<exists>ws1 ws2. line = ws1 @ CHR ''!'' # ws2 \<and> (\<forall>c\<in>set ws1. is_space c) \<and>
              (\<forall>c\<in>set ws2. is_space c))
      \<longrightarrow> LoadGitignoreSpec_line res line = Some res
          \<and> LoadGitignoreSpec_while (before @ line # after) res0 =
              LoadGitignoreSpec_while (before @ after) res0"
  proof
    assume unusable: "(\<forall>c\<in>set line. is_space c)
        \<or> (\<exists>ws rest. line = ws @ CHR ''#'' # rest \<and> (\<forall>c\<in>set ws. is_space c))
        \<or> (\<exists>ws1 ws2. line = ws1 @ CHR ''!'' # ws2 \<and> (\<forall>c\<in>set ws1. is_space c) \<and>
              (\<forall>c\<in>set ws2. is_space c))"
    then have line: "LoadGitignoreSpec_line res line = Some res" for res
      by (rule LoadGitignoreSpec_line_unusable)
    have "LoadGitignoreSpec_while (line # after) r = LoadGitignoreSpec_while after r" for r
      using line [of r] by simp
    then have "LoadGitignoreSpec_while (line # after) = LoadGitignoreSpec_while after"
      by (rule ext)
    then have "LoadGitignoreSpec_while (before @ line # after) res0 =
              LoadGitignoreSpec_while (before @ after) res0"
      by (simp only: LoadGitignoreSpec_while_append)
    with line show "LoadGitignoreSpec_line res line = Some res
          \<and> LoadGitignoreSpec_while (before @ line # after) res0 =
              LoadGitignoreSpec_while (before @ after) res0"
      by blast
  qed
  show ?thesis by (rule conjI [OF total skips])
qed

theorem LoadGitignoreSpec_total_and_skips_witness:
  "LoadGitignoreSpec_line [] ('' '' @ [CHR 0x09, CHR 0x0D]) = Some []
   \<and> LoadGitignoreSpec_line [] ('' '' @ CHR ''#'' # '' note'') = Some []
   \<and> LoadGitignoreSpec_line [] ('' '' @ CHR ''!'' # ''  '') = Some []
   \<and> LoadGitignoreSpec_while ([''a''] @ ('' '' @ CHR ''!'' # ''  '') # [''b'']) [] =
       LoadGitignoreSpec_while ([''a''] @ [''b'']) []
   \<and> LoadGitignoreSpec_while ([''a''] @ [''b'']) [] =
       Some [\<lparr>pattern = ''a'', negated = False, dir_only = False, anchored = False\<rparr>,
             \<lparr>pattern = ''b'', negated = False, dir_only = False, anchored = False\<rparr>]"
proof -
  have sp1: "\<forall>c\<in>set '' ''. is_space c" and sp2: "\<forall>c\<in>set ''  ''. is_space c"
    and sp3: "\<forall>c\<in>set ('' '' @ [CHR 0x09, CHR 0x0D]). is_space c"
    by (simp_all add: is_space_def)
  let ?unusable = "\<lambda>line. (\<forall>c\<in>set line. is_space c)
        \<or> (\<exists>ws rest. line = ws @ CHR ''#'' # rest \<and> (\<forall>c\<in>set ws. is_space c))
        \<or> (\<exists>ws1 ws2. line = ws1 @ CHR ''!'' # ws2 \<and> (\<forall>c\<in>set ws1. is_space c) \<and>
              (\<forall>c\<in>set ws2. is_space c))"
  have h1: "?unusable ('' '' @ [CHR 0x09, CHR 0x0D])"
    using sp3 by blast
  have h2: "?unusable ('' '' @ CHR ''#'' # '' note'')"
    using sp1 by blast
  have h3: "?unusable ('' '' @ CHR ''!'' # ''  '')"
    using sp1 sp2 by blast
  note skip = LoadGitignoreSpec_total_and_skips [THEN conjunct2, THEN mp]
  have l1: "LoadGitignoreSpec_line [] ('' '' @ [CHR 0x09, CHR 0x0D]) = Some []"
    using skip [OF h1, THEN conjunct1] .
  have l2: "LoadGitignoreSpec_line [] ('' '' @ CHR ''#'' # '' note'') = Some []"
    using skip [OF h2, THEN conjunct1] .
  have l3: "LoadGitignoreSpec_line [] ('' '' @ CHR ''!'' # ''  '') = Some []"
    using skip [OF h3, THEN conjunct1] .
  have w: "LoadGitignoreSpec_while ([''a''] @ ('' '' @ CHR ''!'' # ''  '') # [''b'']) [] =
       LoadGitignoreSpec_while ([''a''] @ [''b'']) []"
    using skip [OF h3, THEN conjunct2] .
  have v: "LoadGitignoreSpec_while ([''a''] @ [''b'']) [] =
       Some [\<lparr>pattern = ''a'', negated = False, dir_only = False, anchored = False\<rparr>,
             \<lparr>pattern = ''b'', negated = False, dir_only = False, anchored = False\<rparr>]"
    by code_simp
  show ?thesis
    by (rule conjI [OF l1 conjI [OF l2 conjI [OF l3 conjI [OF w v]]]])
qed

text \<open>
  Claim C8. Compilation always yields a rule list, and every rule in it whose pattern is
  exactly \<^verbatim>\<open>**\<close> has \<open>dir_only = False\<close>; the line \<^verbatim>\<open>**/\<close>, whose trailing slash first set
  \<open>dir_only\<close>, is stored with pattern \<^verbatim>\<open>**\<close> and \<open>dir_only = False\<close>.
\<close>
theorem LoadGitignoreSpec_double_star_not_dir_only:
  "(\<exists>rules. LoadGitignoreSpec gitignore = Some rules \<and>
        (\<forall>p\<in>set rules. pattern p = ''**'' \<longrightarrow> \<not> dir_only p))
   \<and> LoadGitignoreSpec (Some ''**/'') =
       Some [\<lparr>pattern = ''**'', negated = False, dir_only = False, anchored = False\<rparr>]
   \<and> LoadGitignoreSpec (Some ''**'') =
       Some [\<lparr>pattern = ''**'', negated = False, dir_only = False, anchored = False\<rparr>]"
proof -
  have e1: "LoadGitignoreSpec (Some ''**/'') =
       Some [\<lparr>pattern = ''**'', negated = False, dir_only = False, anchored = False\<rparr>]"
    by code_simp
  have e2: "LoadGitignoreSpec (Some ''**'') =
       Some [\<lparr>pattern = ''**'', negated = False, dir_only = False, anchored = False\<rparr>]"
    by code_simp
  show ?thesis by (rule conjI [OF LoadGitignoreSpec_Some conjI [OF e1 e2]])
qed

theorem LoadGitignoreSpec_double_star_not_dir_only_witness:
  "\<exists>rules. LoadGitignoreSpec (Some ''**/'') = Some rules \<and> rules \<noteq> [] \<and>
      pattern (hd rules) = ''**'' \<and> \<not> dir_only (hd rules)"
proof -
  from LoadGitignoreSpec_double_star_not_dir_only [of "Some ''**/''"]
  obtain rules where rules: "LoadGitignoreSpec (Some ''**/'') = Some rules"
    and all: "\<forall>p\<in>set rules. pattern p = ''**'' \<longrightarrow> \<not> dir_only p"
    and val: "LoadGitignoreSpec (Some ''**/'') =
       Some [\<lparr>pattern = ''**'', negated = False, dir_only = False, anchored = False\<rparr>]"
    by blast
  from rules val have eq: "rules = [\<lparr>pattern = ''**'', negated = False, dir_only = False, anchored = False\<rparr>]"
    by simp
  then have ne: "rules \<noteq> []" and pat: "pattern (hd rules) = ''**''" by simp_all
  from ne have "hd rules \<in> set rules" by simp
  with all pat have "\<not> dir_only (hd rules)" by blast
  with rules ne pat show ?thesis by blast
qed

text \<open>
  Claim C9. \<open>IsIgnored\<close> is a function of the rule list, the relative path and the
  directory flag alone (the source reads nothing else), and on every such triple it yields
  exactly one boolean: no evaluation leaves defined behaviour, and two evaluations of the
  same triple give the same result.
\<close>
theorem IsIgnored_deterministic:
  "\<exists>!b. IsIgnored patterns rel_posix is_dir = Some b"
  unfolding IsIgnored_def by (simp add: IsIgnored_for_eq)

theorem IsIgnored_deterministic_witness:
  "(\<exists>!b. IsIgnored [\<lparr>pattern = ''*.log'', negated = False, dir_only = False, anchored = False\<rparr>]
            ''sub/a.log'' False = Some b)
   \<and> IsIgnored [\<lparr>pattern = ''*.log'', negated = False, dir_only = False, anchored = False\<rparr>]
            ''sub/a.log'' False = Some True"
proof -
  have v: "IsIgnored [\<lparr>pattern = ''*.log'', negated = False, dir_only = False, anchored = False\<rparr>]
            ''sub/a.log'' False = Some True"
    by code_simp
  show ?thesis by (rule conjI [OF IsIgnored_deterministic v])
qed

text \<open>
  Claim C10. \<open>TokensMatch\<close> terminates on every input: every argument tuple is in the domain
  of the recursion (both recursive calls are made at \<open>pi + 1\<close>, and the measure of the
  termination proof is \<open>length ptokens - pi\<close>, then the loop counter). For indices within the
  two vectors the result is a boolean; beyond them the source reads outside a vector, which
  the model reports as \<open>None\<close>.
\<close>
theorem TokensMatch_terminates:
  "TokensMatch_TokensMatch_for_dom (Inl (ptokens, stokens, pi, si))
   \<and> (pi \<le> length ptokens \<and> si \<le> length stokens \<longrightarrow>
        (\<exists>b. TokensMatch ptokens stokens pi si = Some b))
   \<and> (length ptokens < pi \<longrightarrow> TokensMatch ptokens stokens pi si = None)"
proof -
  have dom: "TokensMatch_TokensMatch_for_dom (Inl (ptokens, stokens, pi, si))"
    by (rule TokensMatch_dom_all)
  have res: "pi \<le> length ptokens \<and> si \<le> length stokens \<longrightarrow>
        (\<exists>b. TokensMatch ptokens stokens pi si = Some b)"
    using TokensMatch_in_range by blast
  have beyond: "length ptokens < pi \<longrightarrow> TokensMatch ptokens stokens pi si = None"
    using TokensMatch_beyond by blast
  show ?thesis by (rule conjI [OF dom conjI [OF res beyond]])
qed

theorem TokensMatch_terminates_witness:
  "TokensMatch_TokensMatch_for_dom (Inl ([''a'', ''**''], [''a'', ''b'', ''c''], 0, 0))
   \<and> ((0::nat) \<le> length [''a'', ''**''] \<and> (0::nat) \<le> length [''a'', ''b'', ''c''])
   \<and> (\<exists>b. TokensMatch [''a'', ''**''] [''a'', ''b'', ''c''] 0 0 = Some b)
   \<and> TokensMatch [''a'', ''**''] [''a'', ''b'', ''c''] 0 0 = Some True
   \<and> length [''a'', ''**''] < (3::nat)
   \<and> TokensMatch [''a'', ''**''] [''a'', ''b'', ''c''] 3 0 = None"
proof -
  have h: "(0::nat) \<le> length [''a'', ''**''] \<and> (0::nat) \<le> length [''a'', ''b'', ''c'']"
    by simp
  have h3: "length [''a'', ''**''] < (3::nat)" by simp
  note inst = TokensMatch_terminates [of "[''a'', ''**'']" "[''a'', ''b'', ''c'']" 0 0]
  note inst3 = TokensMatch_terminates [of "[''a'', ''**'']" "[''a'', ''b'', ''c'']" 3 0]
  have v: "TokensMatch [''a'', ''**''] [''a'', ''b'', ''c''] 0 0 = Some True" by code_simp
  show ?thesis
    by (rule conjI [OF inst [THEN conjunct1] conjI [OF h
          conjI [OF inst [THEN conjunct2, THEN conjunct1, THEN mp, OF h] conjI [OF v
            conjI [OF h3 inst3 [THEN conjunct2, THEN conjunct2, THEN mp, OF h3]]]]]])
qed

section \<open>Further properties of the segment matcher\<close>

text \<open>
  On every text segment that holds no \<^verbatim>\<open>*\<close> character, \<open>SegmentMatch\<close> decides exactly the
  pattern language of \<open>segment_spec\<close>: \<^verbatim>\<open>*\<close> matches any run of characters, the empty run
  included, \<^verbatim>\<open>?\<close> exactly one character, any other character itself.
\<close>
theorem SegmentMatch_refines_spec:
  "CHR ''*'' \<notin> set str \<longrightarrow> SegmentMatch pat str = segment_spec pat str"
  using SegmentMatch_eq_spec by blast

theorem SegmentMatch_refines_spec_witness:
  "CHR ''*'' \<notin> set ''notes.txt''
   \<and> SegmentMatch ''*.t?t'' ''notes.txt'' = segment_spec ''*.t?t'' ''notes.txt''
   \<and> segment_spec ''*.t?t'' ''notes.txt''"
proof -
  have h: "CHR ''*'' \<notin> set ''notes.txt''" by simp
  have v: "segment_spec ''*.t?t'' ''notes.txt''" by code_simp
  show ?thesis
    by (rule conjI [OF h conjI [OF SegmentMatch_refines_spec [THEN mp, OF h] v]])
qed

text \<open>
  A pattern of one segment (no \<^verbatim>\<open>/\<close> in it, and not \<^verbatim>\<open>**\<close>) matches a path only if the path
  holds no \<^verbatim>\<open>/\<close>, and then as \<open>SegmentMatch\<close> decides; the tokens that \<open>Split\<close> cuts a path
  into never hold a \<^verbatim>\<open>/\<close>. So a rule with the pattern \<^verbatim>\<open>a*b\<close> never matches the path
  \<^verbatim>\<open>a/b\<close>, whatever its flags, although \<open>SegmentMatch\<close> alone would let the star run over
  the slash; and \<^verbatim>\<open>*.txt\<close>, which does not match \<^verbatim>\<open>sub/notes.txt\<close> as a whole, makes it
  ignored as an unanchored rule through the suffix \<^verbatim>\<open>notes.txt\<close>.
\<close>
theorem WildMatchPath_single_segment:
  "(CHR ''/'' \<notin> set pat \<and> pat \<noteq> ''**'' \<longrightarrow>
      WildMatchPath pat path = Some (CHR ''/'' \<notin> set path \<and> SegmentMatch pat path))
   \<and> (\<forall>t\<in>set (Split path CHR ''/''). CHR ''/'' \<notin> set t)
   \<and> (pattern p = ''a*b'' \<longrightarrow> GitWildMatch p ''a/b'' is_dir = Some False)
   \<and> LoadGitignoreSpec (Some ''a*b'') \<bind> (\<lambda>rules. IsIgnored rules ''a/b'' is_dir) = Some False
   \<and> WildMatchPath ''*.txt'' ''sub/notes.txt'' = Some False
   \<and> WildMatchPath ''*.txt'' ''notes.txt'' = Some True
   \<and> LoadGitignoreSpec (Some ''*.txt'') \<bind> (\<lambda>rules. IsIgnored rules ''sub/notes.txt'' False) = Some True"
proof -
  note ab = WildMatchPath_single [of pat path]
  have c: "pattern p = ''a*b'' \<longrightarrow> GitWildMatch p ''a/b'' is_dir = Some False"
    using GitWildMatch_a_star_b by blast
  have dT: "LoadGitignoreSpec (Some ''a*b'') \<bind> (\<lambda>rules. IsIgnored rules ''a/b'' True) = Some False"
    by code_simp
  have dF: "LoadGitignoreSpec (Some ''a*b'') \<bind> (\<lambda>rules. IsIgnored rules ''a/b'' False) = Some False"
    by code_simp
  have d: "LoadGitignoreSpec (Some ''a*b'') \<bind> (\<lambda>rules. IsIgnored rules ''a/b'' is_dir) = Some False"
    using dT dF by (cases is_dir) simp_all
  have e: "WildMatchPath ''*.txt'' ''sub/notes.txt'' = Some False" by code_simp
  have f: "WildMatchPath ''*.txt'' ''notes.txt'' = Some True" by code_simp
  have g: "LoadGitignoreSpec (Some ''*.txt'') \<bind> (\<lambda>rules. IsIgnored rules ''sub/notes.txt'' False) = Some True"
    by code_simp
  show ?thesis
    by (rule conjI [OF ab [THEN conjunct1] conjI [OF ab [THEN conjunct2]
          conjI [OF c conjI [OF d conjI [OF e conjI [OF f g]]]]]])
qed

theorem WildMatchPath_single_segment_witness:
  "(CHR ''/'' \<notin> set ''a*b'' \<and> ''a*b'' \<noteq> ''**'')
   \<and> WildMatchPath ''a*b'' ''a/b'' = Some (CHR ''/'' \<notin> set ''a/b'' \<and> SegmentMatch ''a*b'' ''a/b'')
   \<and> SegmentMatch ''a*b'' ''a/b''
   \<and> Split ''sub/notes.txt'' CHR ''/'' = [''sub'', ''notes.txt'']
   \<and> CHR ''/'' \<notin> set ''notes.txt''
   \<and> pattern \<lparr>pattern = ''a*b'', negated = False, dir_only = False, anchored = False\<rparr> = ''a*b''
   \<and> GitWildMatch \<lparr>pattern = ''a*b'', negated = False, dir_only = False, anchored = False\<rparr>
        ''a/b'' False = Some False"
proof -
  let ?p = "\<lparr>pattern = ''a*b'', negated = False, dir_only = False, anchored = False\<rparr>"
  have h: "CHR ''/'' \<notin> set ''a*b'' \<and> ''a*b'' \<noteq> ''**''" by simp
  have hp: "pattern ?p = ''a*b''" by simp
  have s: "SegmentMatch ''a*b'' ''a/b''" by code_simp
  have sp: "Split ''sub/notes.txt'' CHR ''/'' = [''sub'', ''notes.txt'']" by code_simp
  note inst = WildMatchPath_single_segment [of "''a*b''" "''a/b''" ?p False]
  note toks = WildMatchPath_single_segment [of "''a*b''" "''sub/notes.txt''" ?p False,
      THEN conjunct2, THEN conjunct1]
  have "''notes.txt'' \<in> set (Split ''sub/notes.txt'' CHR ''/'')" by (simp add: sp)
  with toks have t: "CHR ''/'' \<notin> set ''notes.txt''" by (rule bspec)
  show ?thesis
    by (rule conjI [OF h conjI [OF inst [THEN conjunct1, THEN mp, OF h] conjI [OF s
          conjI [OF sp conjI [OF t conjI [OF hp
            inst [THEN conjunct2, THEN conjunct2, THEN conjunct1, THEN mp, OF hp]]]]]]])
qed

text \<open>The empty pattern segment matches the empty text segment and no other.\<close>
theorem SegmentMatch_empty_pattern:
  "SegmentMatch [] str = (str = [])"
  by (rule SegmentMatch_Nil)

end
